theory Spec2Isabelle
  imports Complex_Main "HOL-Library.Multiset" "HOL-Library.Char_ord" "HOL-Library.List_Lexorder"
begin

section \<open>Data model of \<^verbatim>\<open>src/backend/server.js\<close>\<close>

text \<open>
  JavaScript strings are modelled as \<^typ>\<open>string\<close>, one \<^typ>\<open>char\<close> per code unit, ordered
  lexicographically by code unit as the operator \<^verbatim>\<open><\<close> of the source does. JavaScript
  numbers that hold counts and indices are modelled as \<^typ>\<open>int\<close> (the numbers come from
  \<^verbatim>\<open>parseInt\<close> and from array indices); array lengths and array indices are \<^typ>\<open>nat\<close>.
\<close>

record student =
  register_number :: string
  student_name :: string
  subject_code :: string

record hall =
  hall_id :: string
  benches :: int
  rows :: int
  cols :: int

text \<open>
  The objects \<^verbatim>\<open>{ hall_id, bench_index_in_hall, student }\<close> pushed by
  \<^verbatim>\<open>distributeBalanced\<close>. The fields \<^verbatim>\<open>hall_id\<close> and \<^verbatim>\<open>student\<close> carry the prefix
  \<open>a_\<close> because the names are taken by the hall record and the student type.
\<close>

record assignment =
  a_hall_id :: string
  bench_index_in_hall :: int
  a_student :: student

text \<open>The objects \<^verbatim>\<open>{ subject:k, q:v.slice(), count:v.length }\<close> of \<^verbatim>\<open>distributeBalanced\<close>.\<close>

record subject_group =
  subject :: string
  q :: "student list"
  count :: int

text \<open>
  The failures of the modelled code: the \<^verbatim>\<open>RangeError\<close> that \<^verbatim>\<open>new Array(n)\<close> throws for a
  negative \<open>n\<close>, and the answer \<^verbatim>\<open>'no files'\<close> of the upload handler. Arrays are lists of any
  length: the limit of the language on the length of an array is not modelled.
\<close>

datatype error = RangeError | NoFiles

section \<open>Language primitives\<close>

subsection \<open>The random source\<close>

text \<open>
  \<^verbatim>\<open>Math.random()\<close> is modelled by an explicit random source: an infinite sequence of
  natural numbers, consumed from the front. \<^verbatim>\<open>Math.floor(Math.random()*n)\<close> is the next
  number reduced modulo \<open>n\<close>, so every index in \<open>[0, n-1]\<close> is a possible outcome and
  nothing else is.
\<close>

type_synonym rng = "nat \<Rightarrow> nat"

definition random_index :: "rng \<Rightarrow> nat \<Rightarrow> nat \<times> rng" where
  "random_index g n = (g 0 mod n, (\<lambda>k. g (Suc k)))"

subsection \<open>\<^verbatim>\<open>Array.prototype.sort\<close> with a comparator\<close>

text \<open>
  The sort of the language is stable and is driven by the sign of the comparator only.
  It is modelled as the stable insertion sort: every element is inserted, in array order,
  behind the elements it does not compare below.
\<close>

fun js_insert :: "('a \<Rightarrow> 'a \<Rightarrow> int) \<Rightarrow> 'a \<Rightarrow> 'a list \<Rightarrow> 'a list" where
  "js_insert cmp x [] = [x]"
| "js_insert cmp x (y # ys) = (if cmp x y < 0 then x # y # ys else y # js_insert cmp x ys)"

definition js_sort :: "('a \<Rightarrow> 'a \<Rightarrow> int) \<Rightarrow> 'a list \<Rightarrow> 'a list" where
  "js_sort cmp xs = foldl (\<lambda>sorted x. js_insert cmp x sorted) [] xs"

subsection \<open>Numbers in template literals\<close>

text \<open>\<^verbatim>\<open>String(n)\<close> for an integer \<open>n\<close>: its decimal digits, with a sign when negative.\<close>

definition digit_char :: "nat \<Rightarrow> char" where
  "digit_char d = ''0123456789'' ! (d mod 10)"

fun string_of_nat :: "nat \<Rightarrow> string" where
  "string_of_nat n =
     (if n < 10 then [digit_char n] else string_of_nat (n div 10) @ [digit_char (n mod 10)])"

declare string_of_nat.simps [simp del]

definition string_of_int :: "int \<Rightarrow> string" where
  "string_of_int i = (if i < 0 then CHR ''-'' # string_of_nat (nat (- i)) else string_of_nat (nat i))"

section \<open>Utilities\<close>

subsection \<open>\<^verbatim>\<open>shuffleArray\<close>\<close>

text \<open>
  \<^verbatim>\<open>for (let i=arr.length-1;i>0;i--){ const j = Math.floor(Math.random()*(i+1));
  [arr[i], arr[j]] = [arr[j], arr[i]]; }\<close>.
  \<open>shuffle_from i\<close> is the loop from index \<open>i\<close> downwards. Both indices are in range:
  \<open>j \<le> i < length arr\<close>.
\<close>

fun shuffle_from :: "nat \<Rightarrow> rng \<Rightarrow> 'a list \<Rightarrow> 'a list \<times> rng" where
  "shuffle_from 0 g arr = (arr, g)"
| "shuffle_from (Suc k) g arr =
     (case random_index g (Suc k + 1) of
        (j, g') \<Rightarrow> shuffle_from k g' (arr[Suc k := arr ! j, j := arr ! Suc k]))"

definition shuffleArray :: "rng \<Rightarrow> 'a list \<Rightarrow> 'a list \<times> rng" where
  "shuffleArray g arr = shuffle_from (length arr - 1) g arr"

section \<open>The distribution engine: \<^verbatim>\<open>distributeBalanced\<close>\<close>

subsection \<open>Grouping by subject\<close>

text \<open>\<^verbatim>\<open>(s.subject_code || '__NONE__').toString()\<close>: the empty string is falsy.\<close>

definition subject_key :: "student \<Rightarrow> string" where
  "subject_key s = (if subject_code s = [] then ''__NONE__'' else subject_code s)"

text \<open>
  The \<^verbatim>\<open>Map\<close> \<^verbatim>\<open>bySub\<close> is an association list in insertion order, which is the order
  \<^verbatim>\<open>bySub.entries()\<close> iterates in. \<open>bySub_push\<close> is
  \<^verbatim>\<open>if (!bySub.has(key)) bySub.set(key, []); bySub.get(key).push(s)\<close>.
\<close>

fun bySub_push :: "string \<Rightarrow> student \<Rightarrow> (string \<times> student list) list \<Rightarrow> (string \<times> student list) list" where
  "bySub_push key s [] = [(key, [s])]"
| "bySub_push key s ((k, v) # m) =
     (if k = key then (k, v @ [s]) # m else (k, v) # bySub_push key s m)"

definition group_by_subject :: "student list \<Rightarrow> (string \<times> student list) list" where
  "group_by_subject studentsArr = foldl (\<lambda>bySub s. bySub_push (subject_key s) s bySub) [] studentsArr"

text \<open>\<^verbatim>\<open>for (const [_, q] of bySub.entries()) shuffleArray(q)\<close>, threading the random source.\<close>

fun shuffle_queues :: "rng \<Rightarrow> (string \<times> student list) list \<Rightarrow> (string \<times> student list) list \<times> rng" where
  "shuffle_queues g [] = ([], g)"
| "shuffle_queues g ((k, v) # m) =
     (case shuffleArray g v of
        (v', g') \<Rightarrow> (case shuffle_queues g' m of (m', g'') \<Rightarrow> ((k, v') # m', g'')))"

definition make_subjects :: "(string \<times> student list) list \<Rightarrow> subject_group list" where
  "make_subjects bySub =
     js_sort (\<lambda>a b. count b - count a)
       (map (\<lambda>(k, v). \<lparr>subject = k, q = v, count = int (length v)\<rparr>) bySub)"

subsection \<open>The primary pass\<close>

text \<open>
  One round-robin sweep, the inner \<^verbatim>\<open>for\<close> loop over \<^verbatim>\<open>subjects\<close>:
  \<^verbatim>\<open>for (let i=0;i<subjects.length && idx<capacity;i++){ const sub = subjects[i];
  if (sub.q.length === 0) continue; hallSeats[idx] = sub.q.shift(); idx++; placed = true; }\<close>.
  The recursion is over the groups that are still to be visited; the loop state is
  \<open>(hallSeats, idx, placed)\<close>, and the groups are returned with their queues updated.
\<close>

fun sweep :: "nat \<Rightarrow> subject_group list \<Rightarrow> student option list \<times> nat \<times> bool \<Rightarrow>
    subject_group list \<times> student option list \<times> nat \<times> bool" where
  "sweep capacity [] (hallSeats, idx, placed) = ([], hallSeats, idx, placed)"
| "sweep capacity (sub # rest) (hallSeats, idx, placed) =
     (if idx < capacity then
        (case q sub of
           [] \<Rightarrow>
             (case sweep capacity rest (hallSeats, idx, placed) of
                (rest', st) \<Rightarrow> (sub # rest', st))
         | s # ss \<Rightarrow>
             (case sweep capacity rest (hallSeats[idx := Some s], Suc idx, True) of
                (rest', st) \<Rightarrow> (sub\<lparr>q := ss\<rparr> # rest', st)))
      else (sub # rest, hallSeats, idx, placed))"

lemma sweep_idx_mono:
  "sweep capacity subjects (hallSeats, idx, placed) = (subjects', hallSeats', idx', placed') \<Longrightarrow>
     idx \<le> idx' \<and> (placed' \<longrightarrow> placed \<or> idx < idx')"
proof (induction subjects arbitrary: hallSeats idx placed subjects')
  case Nil
  then show ?case by simp
next
  case (Cons sub rest)
  show ?case
  proof (cases "idx < capacity")
    case False
    with Cons.prems show ?thesis by simp
  next
    case True
    show ?thesis
    proof (cases "q sub")
      case Nil
      with True Cons.prems obtain rest' where
        "sweep capacity rest (hallSeats, idx, placed) = (rest', hallSeats', idx', placed')"
        by (auto split: prod.splits)
      from Cons.IH [OF this] show ?thesis .
    next
      case (Cons s ss)
      with True Cons.prems obtain rest' where
        "sweep capacity rest (hallSeats[idx := Some s], Suc idx, True) = (rest', hallSeats', idx', placed')"
        by (auto split: prod.splits)
      from Cons.IH [OF this] show ?thesis by auto
    qed
  qed
qed

text \<open>
  Filling one hall, the \<^verbatim>\<open>while (idx < capacity)\<close> loop: sweeps are repeated until the hall
  is full or a sweep places nobody (\<^verbatim>\<open>if (!placed) break\<close>).
\<close>

function fill :: "nat \<Rightarrow> subject_group list \<Rightarrow> student option list \<Rightarrow> nat \<Rightarrow>
    subject_group list \<times> student option list" where
  "fill capacity subjects hallSeats idx =
     (if idx < capacity then
        (case sweep capacity subjects (hallSeats, idx, False) of
           (subjects', hallSeats', idx', placed) \<Rightarrow>
             if placed then fill capacity subjects' hallSeats' idx' else (subjects', hallSeats'))
      else (subjects, hallSeats))"
  by pat_completeness auto
termination
proof (relation "measure (\<lambda>(capacity, subjects, hallSeats, idx). capacity - idx)")
  show "wf (measure (\<lambda>(capacity, subjects, hallSeats, idx). capacity - idx))"
    by simp
next
  fix capacity :: nat and subjects hallSeats idx x1 x2 x1a x2a x1b x2b
  assume "idx < capacity"
    and "(x1, x2) = sweep capacity subjects (hallSeats, idx, False)"
    and "(x1a, x2a) = x2" and "(x1b, x2b) = x2a" and "x2b"
  then have "sweep capacity subjects (hallSeats, idx, False) = (x1, x1a, x1b, True)"
    by simp
  from sweep_idx_mono [OF this] \<open>idx < capacity\<close>
  show "((capacity, x1, x1a, x1b), capacity, subjects, hallSeats, idx)
          \<in> measure (\<lambda>(capacity, subjects, hallSeats, idx). capacity - idx)"
    by auto
qed

declare fill.simps [simp del]

text \<open>
  \<^verbatim>\<open>for (let b=0;b<hallSeats.length;b++){ if (hallSeats[b]) assignments.push({ hall_id:
  h.hall_id, bench_index_in_hall: b+1, student: hallSeats[b] }); }\<close>, from index \<open>b\<close> on.
\<close>

fun seats_to_assignments :: "string \<Rightarrow> nat \<Rightarrow> student option list \<Rightarrow> assignment list" where
  "seats_to_assignments hid b [] = []"
| "seats_to_assignments hid b (None # hallSeats) = seats_to_assignments hid (Suc b) hallSeats"
| "seats_to_assignments hid b (Some s # hallSeats) =
     \<lparr>a_hall_id = hid, bench_index_in_hall = int b + 1, a_student = s\<rparr>
       # seats_to_assignments hid (Suc b) hallSeats"

text \<open>
  The loop \<^verbatim>\<open>for (const h of hallDefs)\<close>. \<^verbatim>\<open>new Array(capacity)\<close> throws a
  \<^verbatim>\<open>RangeError\<close> for a negative length; the exception leaves \<^verbatim>\<open>distributeBalanced\<close>.
\<close>

fun fill_halls :: "subject_group list \<Rightarrow> hall list \<Rightarrow> assignment list \<Rightarrow>
    error + subject_group list \<times> assignment list" where
  "fill_halls subjects [] assignments = Inr (subjects, assignments)"
| "fill_halls subjects (h # hs) assignments =
     (if benches h < 0 then Inl RangeError
      else
        (let capacity = nat (benches h) in
         case fill capacity subjects (replicate capacity None) 0 of
           (subjects', hallSeats) \<Rightarrow>
             fill_halls subjects' hs (assignments @ seats_to_assignments (hall_id h) 0 hallSeats)))"

subsection \<open>The backfill pass\<close>

text \<open>The template literal \<^verbatim>\<open>`${hall_id}#${bench}`\<close>.\<close>

definition position_key :: "string \<Rightarrow> int \<Rightarrow> string" where
  "position_key hid b = hid @ ''#'' @ string_of_int b"

text \<open>
  \<^verbatim>\<open>for (const h of hallDefs) for (let b=1;b<=h.benches;b++) positions.push({ hall_id:
  h.hall_id, bench: b })\<close>; a position is the pair of its two fields.
\<close>

definition all_positions :: "hall list \<Rightarrow> (string \<times> int) list" where
  "all_positions hallDefs = concat (map (\<lambda>h. map (\<lambda>b. (hall_id h, b)) [1..benches h]) hallDefs)"

text \<open>
  \<^verbatim>\<open>for (const p of positions){ if (i >= remaining.length) break; const key = ...;
  if (!used.has(key)){ assignments.push({ ..., student: remaining[i++] }); used.add(key); } }\<close>.
\<close>

fun backfill :: "student list \<Rightarrow> nat \<Rightarrow> (string \<times> int) list \<Rightarrow> string set \<Rightarrow> assignment list \<Rightarrow>
    assignment list" where
  "backfill remaining i [] used assignments = assignments"
| "backfill remaining i (p # positions) used assignments =
     (if i \<ge> length remaining then assignments
      else
        (let key = position_key (fst p) (snd p) in
         if key \<notin> used then
           backfill remaining (Suc i) positions (insert key used)
             (assignments @ [\<lparr>a_hall_id = fst p, bench_index_in_hall = snd p, a_student = remaining ! i\<rparr>])
         else backfill remaining i positions used assignments))"

subsection \<open>The whole function\<close>

text \<open>
  \<open>primary_pass\<close> is \<^verbatim>\<open>distributeBalanced\<close> up to the end of the loop over the halls: it
  returns the subject groups with what is left in their queues, and the assignments so far.
\<close>

definition primary_pass :: "rng \<Rightarrow> student list \<Rightarrow> hall list \<Rightarrow>
    error + subject_group list \<times> assignment list" where
  "primary_pass g studentsArr hallDefs =
     fill_halls (make_subjects (fst (shuffle_queues g (group_by_subject studentsArr)))) hallDefs []"

text \<open>\<^verbatim>\<open>for (const sub of subjects) while (sub.q.length) remaining.push(sub.q.shift())\<close>.\<close>

definition drain :: "subject_group list \<Rightarrow> student list" where
  "drain subjects = concat (map q subjects)"

definition distributeBalanced :: "rng \<Rightarrow> student list \<Rightarrow> hall list \<Rightarrow> error + assignment list" where
  "distributeBalanced g studentsArr hallDefs =
     (case primary_pass g studentsArr hallDefs of
        Inl e \<Rightarrow> Inl e
      | Inr (subjects, assignments) \<Rightarrow>
          (let remaining = drain subjects in
           if length remaining > 0 then
             Inr (backfill remaining 0 (all_positions hallDefs)
                    (set (map (\<lambda>a. position_key (a_hall_id a) (bench_index_in_hall a)) assignments))
                    assignments)
           else Inr assignments))"

section \<open>The allocation handler: \<^verbatim>\<open>POST /api/allocate\<close>\<close>

subsection \<open>Hall geometry\<close>

text \<open>
  \<^verbatim>\<open>Math.ceil(a / b)\<close> for integers \<open>a\<close> and \<open>b\<close>: the ceiling of the quotient, taken in the
  real numbers. The division by zero gives an infinity or \<^verbatim>\<open>NaN\<close> in the source, which is
  no integer: the model has \<open>None\<close> there.
\<close>

definition ceil_div :: "int \<Rightarrow> int \<Rightarrow> int option" where
  "ceil_div a b = (if b = 0 then None else Some \<lceil>real_of_int a / real_of_int b\<rceil>)"

text \<open>
  The elements of \<^verbatim>\<open>rawHalls\<close>, as \<^verbatim>\<open>readHallListFromFile\<close> writes them: \<^verbatim>\<open>rows\<close> and
  \<^verbatim>\<open>cols\<close> are numbers or \<^verbatim>\<open>null\<close> (\<open>None\<close>); a missing property is \<open>None\<close> as well.
\<close>

record raw_hall =
  raw_hall_id :: string
  raw_benches :: "int option"
  raw_rows :: "int option"
  raw_cols :: "int option"

text \<open>\<^verbatim>\<open>x || null\<close>: \<^verbatim>\<open>null\<close>, \<^verbatim>\<open>undefined\<close> and \<open>0\<close> are falsy.\<close>

definition or_null :: "int option \<Rightarrow> int option" where
  "or_null x = (case x of None \<Rightarrow> None | Some v \<Rightarrow> if v = 0 then None else Some v)"

text \<open>
  The three-way \<^verbatim>\<open>if\<close> of the handler:
  \<^verbatim>\<open>if (!rows && !cols) { cols = 10; rows = Math.ceil(benches / cols); }
  else if (rows && !cols) cols = Math.ceil(benches / rows);
  else if (cols && !rows) rows = Math.ceil(benches / cols);\<close>
  The result is the pair \<open>(rows, cols)\<close>; \<open>n\<close> is \<^verbatim>\<open>benches\<close>.
\<close>

definition fill_missing_dimension :: "int \<Rightarrow> int option \<Rightarrow> int option \<Rightarrow> (int \<times> int) option" where
  "fill_missing_dimension n rows0 cols0 =
     (case (rows0, cols0) of
        (None, None) \<Rightarrow> map_option (\<lambda>r. (r, 10)) (ceil_div n 10)
      | (Some r, None) \<Rightarrow> map_option (\<lambda>c. (r, c)) (ceil_div n r)
      | (None, Some c) \<Rightarrow> map_option (\<lambda>r. (r, c)) (ceil_div n c)
      | (Some r, Some c) \<Rightarrow> Some (r, c))"

text \<open>
  The body of \<^verbatim>\<open>for (const h of rawHalls)\<close>, with
  \<^verbatim>\<open>const benches = h.benches || 30\<close> (here \<open>n\<close>) as its first step and
  \<^verbatim>\<open>if (rows * cols < benches) cols = Math.ceil(benches / rows)\<close> as its last.
\<close>

definition resolve_hall :: "raw_hall \<Rightarrow> hall option" where
  "resolve_hall h =
     (let n = (case raw_benches h of None \<Rightarrow> 30 | Some b \<Rightarrow> if b = 0 then 30 else b) in
      case fill_missing_dimension n (or_null (raw_rows h)) (or_null (raw_cols h)) of
        None \<Rightarrow> None
      | Some (r, c) \<Rightarrow>
          (if r * c < n then
             map_option (\<lambda>c'. \<lparr>hall_id = raw_hall_id h, benches = n, rows = r, cols = c'\<rparr>)
               (ceil_div n r)
           else Some \<lparr>hall_id = raw_hall_id h, benches = n, rows = r, cols = c\<rparr>))"

text \<open>
  The loop \<^verbatim>\<open>for (const h of rawHalls) { ...; hallDefs.push({ hall_id: h.hall_id, benches,
  rows, cols }); }\<close> of the handler.
\<close>

definition resolve_halls :: "raw_hall list \<Rightarrow> hall list option" where
  "resolve_halls rawHalls = those (map resolve_hall rawHalls)"

subsection \<open>The odd allocator\<close>

text \<open>\<^verbatim>\<open>Math.ceil(n/2)\<close>.\<close>

definition ceil_half :: "int \<Rightarrow> int" where
  "ceil_half n = \<lceil>real_of_int n / 2\<rceil>"

text \<open>
  \<^verbatim>\<open>hallDefs.map(h => ({ hall_id: h.hall_id, benches: Math.ceil(h.benches/2), rows: h.rows,
  cols: Math.ceil(h.cols/2) }))\<close>.
\<close>

definition odd_defs :: "hall list \<Rightarrow> hall list" where
  "odd_defs hallDefs =
     map (\<lambda>h. \<lparr>hall_id = hall_id h, benches = ceil_half (benches h), rows = rows h,
                cols = ceil_half (cols h)\<rparr>) hallDefs"

text \<open>
  The objects \<^verbatim>\<open>{ hall_id, bench_number, student }\<close> that the handler pushes; the prefix
  \<open>p_\<close> as for the assignments.
\<close>

record placement =
  p_hall_id :: string
  bench_number :: int
  p_student :: student

text \<open>
  \<^verbatim>\<open>!allocator || allocator==='odd'\<close> for an \<^verbatim>\<open>allocator\<close> that is absent (\<open>None\<close>) or a
  string; the empty string is falsy.
\<close>

definition odd_allocator :: "string option \<Rightarrow> bool" where
  "odd_allocator allocator \<longleftrightarrow> allocator = None \<or> allocator = Some [] \<or> allocator = Some ''odd''"

text \<open>
  The block that the handler runs for the pool of a day and, with the same text, for the
  whole roster: \<^verbatim>\<open>shuffleArray(pool)\<close>, then the branch on the allocator.
\<close>

definition assign_pool :: "rng \<Rightarrow> string option \<Rightarrow> student list \<Rightarrow> hall list \<Rightarrow> error + placement list" where
  "assign_pool g allocator pool hallDefs =
     (case shuffleArray g pool of
        (pool', g') \<Rightarrow>
          if odd_allocator allocator then
            (case distributeBalanced g' pool' (odd_defs hallDefs) of
               Inl e \<Rightarrow> Inl e
             | Inr a \<Rightarrow>
                 Inr (map (\<lambda>x. \<lparr>p_hall_id = a_hall_id x,
                                   bench_number = (bench_index_in_hall x - 1) * 2 + 1,
                                   p_student = a_student x\<rparr>) a))
          else
            (case distributeBalanced g' pool' hallDefs of
               Inl e \<Rightarrow> Inl e
             | Inr a \<Rightarrow>
                 Inr (map (\<lambda>x. \<lparr>p_hall_id = a_hall_id x,
                                   bench_number = bench_index_in_hall x,
                                   p_student = a_student x\<rparr>) a)))"

section \<open>The record normalizer\<close>

subsection \<open>Strings and cells\<close>

text \<open>
  The model covers strings of ASCII code units. \<open>is_space\<close> is the white space that
  \<^verbatim>\<open>trim\<close> and the class \<^verbatim>\<open>\s\<close> know among them: tab, line feed, vertical tab, form feed,
  carriage return and space. \<^verbatim>\<open>toLowerCase\<close> and \<^verbatim>\<open>toUpperCase\<close> map the ASCII letters.
\<close>

definition is_space :: "char \<Rightarrow> bool" where
  "is_space c \<longleftrightarrow> c \<in> {CHR 0x09, CHR 0x0A, CHR 0x0B, CHR 0x0C, CHR 0x0D, CHR '' ''}"

definition trim :: "string \<Rightarrow> string" where
  "trim s = rev (dropWhile is_space (rev (dropWhile is_space s)))"

definition is_upper :: "char \<Rightarrow> bool" where
  "is_upper c \<longleftrightarrow> CHR ''A'' \<le> c \<and> c \<le> CHR ''Z''"

definition is_lower :: "char \<Rightarrow> bool" where
  "is_lower c \<longleftrightarrow> CHR ''a'' \<le> c \<and> c \<le> CHR ''z''"

definition is_digit :: "char \<Rightarrow> bool" where
  "is_digit c \<longleftrightarrow> CHR ''0'' \<le> c \<and> c \<le> CHR ''9''"

definition toLowerCase :: "string \<Rightarrow> string" where
  "toLowerCase s = map (\<lambda>c. if is_upper c then char_of (of_char c + (32::nat)) else c) s"

definition toUpperCase :: "string \<Rightarrow> string" where
  "toUpperCase s = map (\<lambda>c. if is_lower c then char_of (of_char c - (32::nat)) else c) s"

text \<open>\<^verbatim>\<open>s.includes(t)\<close>: \<open>t\<close> occurs in \<open>s\<close> as a contiguous part.\<close>

fun str_includes :: "string \<Rightarrow> string \<Rightarrow> bool" where
  "str_includes [] t = (t = [])"
| "str_includes (c # s) t = (take (length t) (c # s) = t \<or> str_includes s t)"

text \<open>
  A cell of a sheet row: a string or a number; the numbers of the model are integers.
  \<open>truthy\<close> is the truth value of the cell in a condition, \<open>js_String\<close> is
  \<^verbatim>\<open>String(x)\<close>, and \<open>or_empty\<close> is \<^verbatim>\<open>x || ''\<close> for a cell that may be absent.
\<close>

datatype cell = Str string | Num int

fun truthy :: "cell \<Rightarrow> bool" where
  "truthy (Str s) = (s \<noteq> [])"
| "truthy (Num n) = (n \<noteq> 0)"

fun js_String :: "cell \<Rightarrow> string" where
  "js_String (Str s) = s"
| "js_String (Num n) = string_of_int n"

definition or_empty :: "cell option \<Rightarrow> cell" where
  "or_empty x = (case x of None \<Rightarrow> Str [] | Some c \<Rightarrow> if truthy c then c else Str [])"

text \<open>
  A row of \<^verbatim>\<open>sheet_to_json\<close>: the headers with their cells, listed in the order in which
  \<^verbatim>\<open>Object.keys\<close> gives the headers. \<open>row_get r k\<close> is \<^verbatim>\<open>r[k]\<close>.
\<close>

type_synonym row = "(string \<times> cell) list"

definition row_get :: "row \<Rightarrow> string \<Rightarrow> cell option" where
  "row_get r k = map_of r k"

text \<open>
  \<^verbatim>\<open>parseInt(x, 10)\<close>: white space is skipped, a sign is read, then the decimal digits up to
  the first other character; without a digit the result is \<^verbatim>\<open>NaN\<close>, here \<open>None\<close>.
\<close>

definition digits_value :: "string \<Rightarrow> int" where
  "digits_value ds = foldl (\<lambda>a c. 10 * a + (int (of_char c) - 48)) 0 ds"

definition parseInt :: "cell \<Rightarrow> int option" where
  "parseInt x =
     (let s = dropWhile is_space (js_String x);
          (neg, t) = (case s of
                        c # t \<Rightarrow> if c = CHR ''-'' then (True, t) else if c = CHR ''+'' then (False, t) else (False, s)
                      | [] \<Rightarrow> (False, s));
          ds = takeWhile is_digit t
      in if ds = [] then None else Some (if neg then - digits_value ds else digits_value ds))"

subsection \<open>\<^verbatim>\<open>normalizeRegister\<close>\<close>

text \<open>
  \<^verbatim>\<open>if (!reg) return ''; return String(reg).trim().replace(/\s+/g,'').toUpperCase()\<close>.
\<close>

definition normalizeRegister :: "cell \<Rightarrow> string" where
  "normalizeRegister reg =
     (if \<not> truthy reg then [] else toUpperCase (filter (\<lambda>c. \<not> is_space c) (trim (js_String reg))))"

subsection \<open>\<^verbatim>\<open>parseStudentRowRobust\<close>\<close>

text \<open>
  The loop over the keys gives every role the first key whose lower-case form matches; a key
  that matches is not empty, so the guard \<^verbatim>\<open>!studentCol\<close> holds exactly until the first match.
\<close>

definition studentCol :: "string list \<Rightarrow> string option" where
  "studentCol keys = find (\<lambda>k. let kl = toLowerCase k in
      kl = ''student'' \<or> str_includes kl ''student'' \<or> str_includes kl ''name('') keys"

definition nameCol :: "string list \<Rightarrow> string option" where
  "nameCol keys = find (\<lambda>k. let kl = toLowerCase k in
      kl = ''name'' \<or> str_includes kl ''student name'') keys"

definition regCol :: "string list \<Rightarrow> string option" where
  "regCol keys = find (\<lambda>k. let kl = toLowerCase k in
      str_includes kl ''reg'' \<or> str_includes kl ''register'' \<or> str_includes kl ''roll'') keys"

definition courseCol :: "string list \<Rightarrow> string option" where
  "courseCol keys = find (\<lambda>k. let kl = toLowerCase k in
      str_includes kl ''course'' \<or> str_includes kl ''course name'' \<or> str_includes kl ''programme'') keys"

definition subjCol :: "string list \<Rightarrow> string option" where
  "subjCol keys = find (\<lambda>k. let kl = toLowerCase k in
      str_includes kl ''sub'' \<or> str_includes kl ''subject'' \<or> str_includes kl ''code'') keys"

text \<open>\<^verbatim>\<open>String(row[k]||'').trim()\<close>.\<close>

definition cell_text :: "row \<Rightarrow> string \<Rightarrow> string" where
  "cell_text r k = trim (js_String (or_empty (row_get r k)))"

text \<open>
  The fallback scan for the subject code:
  \<^verbatim>\<open>for (const k of keys){ const v = String(row[k]||'').trim();
  if (v && v.length<=8 && /[A-Za-z0-9]/.test(v) && !k.toLowerCase().includes('name'))
  { subject_code=v; break; } }\<close>.
  \<open>r\<close> is the row and the recursion is over the keys still to be visited; the result is the
  value of \<^verbatim>\<open>subject_code\<close> after the loop, which is \<^verbatim>\<open>''\<close> when nothing was taken.
\<close>

definition is_alnum :: "char \<Rightarrow> bool" where
  "is_alnum c \<longleftrightarrow> is_upper c \<or> is_lower c \<or> is_digit c"

fun subject_scan :: "row \<Rightarrow> string list \<Rightarrow> string" where
  "subject_scan r [] = []"
| "subject_scan r (k # keys) =
     (let v = cell_text r k in
      if v \<noteq> [] \<and> length v \<le> 8 \<and> list_ex is_alnum v \<and> \<not> str_includes (toLowerCase k) ''name''
      then v else subject_scan r keys)"

text \<open>
  The result of \<^verbatim>\<open>parseStudentRowRobust\<close> has the three fields of a student and the subject
  name.
\<close>

record parsed_student = student +
  subject_name :: string

text \<open>
  \<^verbatim>\<open>extractFromCombinedCell\<close> splits a cell of the form \<^verbatim>\<open>LEFT (RIGHT)\<close> with a regular
  expression. None of the properties below depends on how it splits, so the function is a
  parameter \<open>extract\<close> of the parser: it takes \<^verbatim>\<open>String(cell)\<close> and returns \<^verbatim>\<open>left\<close> and
  \<^verbatim>\<open>right\<close>. It is called on cells that are not blank only, where it does not return
  \<^verbatim>\<open>null\<close>.
\<close>

definition parseStudentRowRobust :: "(string \<Rightarrow> string \<times> string) \<Rightarrow> row \<Rightarrow> parsed_student" where
  "parseStudentRowRobust extract r =
     (let keys = map fst r;
          (name0, reg0) =
            (case studentCol keys of
               Some k \<Rightarrow>
                 if cell_text r k \<noteq> [] then extract (js_String (or_empty (row_get r k)))
                 else ((case nameCol keys of Some kn \<Rightarrow> cell_text r kn | None \<Rightarrow> []),
                       (case regCol keys of Some kr \<Rightarrow> cell_text r kr | None \<Rightarrow> []))
             | None \<Rightarrow>
                 ((case nameCol keys of Some kn \<Rightarrow> cell_text r kn | None \<Rightarrow> []),
                  (case regCol keys of Some kr \<Rightarrow> cell_text r kr | None \<Rightarrow> [])));
          course = (case courseCol keys of Some k \<Rightarrow> if cell_text r k \<noteq> [] then Some k else None | None \<Rightarrow> None);
          subj = (case subjCol keys of Some k \<Rightarrow> if cell_text r k \<noteq> [] then Some k else None | None \<Rightarrow> None);
          (sname, scode) =
            (case course of
               Some k \<Rightarrow> extract (js_String (or_empty (row_get r k)))
             | None \<Rightarrow>
                 (case subj of
                    Some k \<Rightarrow> extract (js_String (or_empty (row_get r k)))
                  | None \<Rightarrow> ([], subject_scan r keys)))
      in \<lparr>register_number = normalizeRegister (Str reg0),
          student_name = name0,
          subject_code = toUpperCase (trim scode),
          subject_name = sname\<rparr>)"

subsection \<open>\<^verbatim>\<open>readStudentsFromFile\<close>\<close>

text \<open>
  The function of \<^verbatim>\<open>raw.map\<close>: a row with one of the canonical properties
  \<^verbatim>\<open>student_name\<close>, \<^verbatim>\<open>register_number\<close>, \<^verbatim>\<open>subject_code\<close> truthy is taken as it is,
  any other row goes through \<^verbatim>\<open>parseStudentRowRobust\<close>.
\<close>

definition parse_student :: "(string \<Rightarrow> string \<times> string) \<Rightarrow> row \<Rightarrow> student" where
  "parse_student extract r =
     (if truthy (or_empty (row_get r ''student_name''))
         \<or> truthy (or_empty (row_get r ''register_number''))
         \<or> truthy (or_empty (row_get r ''subject_code''))
      then \<lparr>register_number = normalizeRegister (or_empty (row_get r ''register_number'')),
             student_name = trim (js_String (or_empty (row_get r ''student_name''))),
             subject_code = toUpperCase (js_String (or_empty (row_get r ''subject_code'')))\<rparr>
      else (let p = parseStudentRowRobust extract r in
            \<lparr>register_number = register_number p, student_name = student_name p,
               subject_code = subject_code p\<rparr>))"

text \<open>
  The first loop of the error correction:
  \<^verbatim>\<open>for (const s of parsed){ if (s.register_number && seen.has(s.register_number)) continue;
  if (s.register_number) seen.add(s.register_number); unique.push(s); }\<close>.
  The result is what the loop pushes to \<^verbatim>\<open>unique\<close>, starting from the set \<open>seen\<close>.
\<close>

fun drop_duplicates :: "string set \<Rightarrow> student list \<Rightarrow> student list" where
  "drop_duplicates seen [] = []"
| "drop_duplicates seen (s # parsed) =
     (if register_number s \<noteq> [] \<and> register_number s \<in> seen then drop_duplicates seen parsed
      else s # drop_duplicates (if register_number s \<noteq> [] then insert (register_number s) seen else seen) parsed)"

text \<open>\<^verbatim>\<open>s.padStart(n, '0')\<close> and the template literal \<^verbatim>\<open>`SYN${String(counter).padStart(4,'0')}`\<close>.\<close>

definition padStart :: "nat \<Rightarrow> char \<Rightarrow> string \<Rightarrow> string" where
  "padStart n c s = replicate (n - length s) c @ s"

definition synthetic_id :: "nat \<Rightarrow> string" where
  "synthetic_id syntheticCounter = ''SYN'' @ padStart 4 CHR ''0'' (string_of_nat syntheticCounter)"

text \<open>
  The second loop:
  \<^verbatim>\<open>for (const s of unique){ if (!s.register_number || s.register_number==='') {
  s.register_number = `SYN...`; syntheticCounter++; } }\<close>.
\<close>

fun synthesize :: "nat \<Rightarrow> student list \<Rightarrow> student list" where
  "synthesize syntheticCounter [] = []"
| "synthesize syntheticCounter (s # unique) =
     (if register_number s = [] then
        s\<lparr>register_number := synthetic_id syntheticCounter\<rparr> # synthesize (syntheticCounter + 1) unique
      else s # synthesize syntheticCounter unique)"

text \<open>
  The error correction as a whole, from \<^verbatim>\<open>parsed\<close> to the returned array; the last step is
  \<^verbatim>\<open>unique.sort((a,b)=> (a.register_number < b.register_number ? -1 : 1))\<close>.
\<close>

definition reconcile :: "student list \<Rightarrow> student list" where
  "reconcile parsed =
     js_sort (\<lambda>a b. if register_number a < register_number b then - 1 else 1)
       (synthesize 1 (drop_duplicates {} parsed))"

text \<open>A file is given by the rows that \<^verbatim>\<open>safeReadWorkbook\<close> reads from it.\<close>

definition readStudentsFromFile :: "(string \<Rightarrow> string \<times> string) \<Rightarrow> row list \<Rightarrow> student list" where
  "readStudentsFromFile extract raw = reconcile (map (parse_student extract) raw)"

text \<open>
  The handler of \<^verbatim>\<open>POST /api/upload/students\<close>:
  \<^verbatim>\<open>if (!files.length) return res.status(400).json({ ok:false, error:'no files' });
  for (const f of files) students = students.concat(readStudentsFromFile(f.path))\<close>.
  The result is the array \<^verbatim>\<open>students\<close> that the handler saves.
\<close>

definition upload_students :: "(string \<Rightarrow> string \<times> string) \<Rightarrow> row list list \<Rightarrow> error + student list" where
  "upload_students extract files =
     (if files = [] then Inl NoFiles else Inr (concat (map (readStudentsFromFile extract) files)))"

subsection \<open>\<^verbatim>\<open>readHallListFromFile\<close>\<close>

definition hallKey :: "string list \<Rightarrow> string option" where
  "hallKey keys = find (\<lambda>k. let kn = toLowerCase k in
      str_includes kn ''hall'' \<or> str_includes kn ''class'' \<or> str_includes kn ''room'' \<or> str_includes kn ''id'') keys"

definition benchesKey :: "string list \<Rightarrow> string option" where
  "benchesKey keys = find (\<lambda>k. let kn = toLowerCase k in
      str_includes kn ''bench'' \<or> str_includes kn ''seat'' \<or> str_includes kn ''capacity''
        \<or> str_includes kn ''benches'') keys"

definition rowsKey :: "string list \<Rightarrow> string option" where
  "rowsKey keys = find (\<lambda>k. let kn = toLowerCase k in kn = ''rows'' \<or> str_includes kn ''row'') keys"

definition colsKey :: "string list \<Rightarrow> string option" where
  "colsKey keys = find (\<lambda>k. let kn = toLowerCase k in
      kn = ''cols'' \<or> str_includes kn ''col'' \<or> str_includes kn ''column'') keys"

text \<open>
  \<^verbatim>\<open>key && r[key] !== '' ? parseInt(r[key],10) || null : null\<close>: the number read from the
  column \<open>key\<close>, or \<open>None\<close> for \<^verbatim>\<open>null\<close>; \<^verbatim>\<open>NaN\<close> and 0 are falsy.
\<close>

definition int_cell :: "row \<Rightarrow> string option \<Rightarrow> int option" where
  "int_cell r key =
     (case key of
        None \<Rightarrow> None
      | Some k \<Rightarrow>
          (case row_get r k of
             None \<Rightarrow> None
           | Some x \<Rightarrow> if x = Str [] then None else or_null (parseInt x)))"

text \<open>
  The function of \<^verbatim>\<open>raw.map((r,i) => ...)\<close>. The record it returns has the shape of the
  elements of \<^verbatim>\<open>rawHalls\<close>.
\<close>

definition parse_hall :: "int \<Rightarrow> nat \<Rightarrow> row \<Rightarrow> raw_hall" where
  "parse_hall defaultBenches i r =
     (let keys = map fst r in
      \<lparr>raw_hall_id =
         (case hallKey keys of
            Some k \<Rightarrow> (case row_get r k of Some x \<Rightarrow> js_String x | None \<Rightarrow> ''undefined'')
          | None \<Rightarrow> ''Hall_'' @ string_of_nat (i + 1)),
       raw_benches =
         Some (case int_cell r (benchesKey keys) of Some n \<Rightarrow> n | None \<Rightarrow> defaultBenches),
       raw_rows = int_cell r (rowsKey keys),
       raw_cols = int_cell r (colsKey keys)\<rparr>)"

definition readHallListFromFile :: "row list \<Rightarrow> int \<Rightarrow> raw_hall list" where
  "readHallListFromFile raw defaultBenches =
     js_sort (\<lambda>a b. if raw_hall_id a < raw_hall_id b then - 1 else 1)
       (map (\<lambda>(i, r). parse_hall defaultBenches i r) (enumerate 0 raw))"
section \<open>Properties of the distribution engine\<close>

subsection \<open>Shuffling and sorting permute\<close>

lemma shuffle_from_mset:
  "i < length arr \<Longrightarrow> mset (fst (shuffle_from i g arr)) = mset arr"
proof (induction i arbitrary: g arr)
  case 0
  then show ?case by simp
next
  case (Suc k)
  let ?j = "g 0 mod (Suc k + 1)"
  have j: "?j < length arr" proof -
    have "?j < Suc k + 1" by (rule mod_less_divisor) simp
    with Suc.prems show ?thesis by linarith
  qed
  have "mset (arr[Suc k := arr ! ?j, ?j := arr ! Suc k]) = mset arr"
    using Suc.prems j by (simp add: mset_swap)
  moreover have "k < length (arr[Suc k := arr ! ?j, ?j := arr ! Suc k])"
    using Suc.prems by simp
  ultimately show ?case
    using Suc.IH [of "arr[Suc k := arr ! ?j, ?j := arr ! Suc k]" "\<lambda>k. g (Suc k)"]
    by (simp add: random_index_def)
qed

lemma shuffleArray_mset: "mset (fst (shuffleArray g arr)) = mset arr"
proof (cases arr)
  case Nil
  then show ?thesis by (simp add: shuffleArray_def)
next
  case (Cons a as)
  then show ?thesis by (simp add: shuffleArray_def shuffle_from_mset)
qed

lemma js_insert_mset: "mset (js_insert cmp x ys) = add_mset x (mset ys)"
  by (induction ys) auto

lemma js_sort_mset_aux: "mset (foldl (\<lambda>sorted x. js_insert cmp x sorted) acc xs) = mset acc + mset xs"
  by (induction xs arbitrary: acc) (auto simp: js_insert_mset)

lemma js_sort_mset: "mset (js_sort cmp xs) = mset xs"
  by (simp add: js_sort_def js_sort_mset_aux)

subsection \<open>The subject groups\<close>

text \<open>
  The groups are well formed when their subjects are pairwise different and every student
  waits in the queue of the own subject key.
\<close>

definition groups_wf :: "subject_group list \<Rightarrow> bool" where
  "groups_wf subjects \<longleftrightarrow>
     distinct (map subject subjects) \<and>
     (\<forall>sub \<in> set subjects. \<forall>s \<in> set (q sub). subject_key s = subject sub)"

lemma bySub_push_mset:
  "mset (concat (map snd (bySub_push key s m))) = add_mset s (mset (concat (map snd m)))"
  by (induction key s m rule: bySub_push.induct) auto

lemma group_by_subject_mset_aux:
  "mset (concat (map snd (foldl (\<lambda>bySub s. bySub_push (subject_key s) s bySub) m xs)))
     = mset (concat (map snd m)) + mset xs"
  by (induction xs arbitrary: m) (auto simp: bySub_push_mset)

lemma group_by_subject_mset: "mset (concat (map snd (group_by_subject xs))) = mset xs"
  by (simp add: group_by_subject_def group_by_subject_mset_aux)

definition bySub_wf :: "(string \<times> student list) list \<Rightarrow> bool" where
  "bySub_wf m \<longleftrightarrow> distinct (map fst m) \<and> (\<forall>(k, v) \<in> set m. \<forall>s \<in> set v. subject_key s = k)"

lemma bySub_push_keys: "fst ` set (bySub_push key s m) = insert key (fst ` set m)"
  by (induction key s m rule: bySub_push.induct) auto

lemma bySub_push_wf: "bySub_wf m \<Longrightarrow> bySub_wf (bySub_push (subject_key s) s m)"
proof (induction "subject_key s" s m rule: bySub_push.induct)
  case (1 s)
  then show ?case by (simp add: bySub_wf_def)
next
  case (2 s k v m)
  from "2.prems" have wf: "bySub_wf m" and k: "k \<notin> fst ` set m" and v: "\<forall>x\<in>set v. subject_key x = k"
    by (auto simp: bySub_wf_def)
  show ?case
  proof (cases "k = subject_key s")
    case True
    with "2.prems" show ?thesis by (auto simp: bySub_wf_def)
  next
    case False
    with "2.hyps" wf have IH: "bySub_wf (bySub_push (subject_key s) s m)" by simp
    have "k \<notin> fst ` set (bySub_push (subject_key s) s m)"
      using k False by (simp add: bySub_push_keys)
    with IH v False show ?thesis by (auto simp: bySub_wf_def)
  qed
qed

lemma group_by_subject_wf_aux:
  "bySub_wf m \<Longrightarrow> bySub_wf (foldl (\<lambda>bySub s. bySub_push (subject_key s) s bySub) m xs)"
  by (induction xs arbitrary: m) (auto simp: bySub_push_wf)

lemma group_by_subject_wf: "bySub_wf (group_by_subject xs)"
proof -
  have "bySub_wf []" by (simp add: bySub_wf_def)
  then show ?thesis unfolding group_by_subject_def by (rule group_by_subject_wf_aux)
qed

lemma shuffleArray_set: "set (fst (shuffleArray g arr)) = set arr"
  by (metis shuffleArray_mset set_mset_mset)

lemma shuffle_queues_mset:
  "mset (concat (map snd (fst (shuffle_queues g m)))) = mset (concat (map snd m))"
proof (induction g m rule: shuffle_queues.induct)
  case (1 g)
  then show ?case by simp
next
  case (2 g k v m)
  obtain v' g' where s: "shuffleArray g v = (v', g')" by (cases "shuffleArray g v")
  obtain m' g'' where r: "shuffle_queues g' m = (m', g'')" by (cases "shuffle_queues g' m")
  from s have "mset v' = mset v" using shuffleArray_mset [of g v] by simp
  moreover from "2.IH" [OF s [symmetric]] r have "mset (concat (map snd m')) = mset (concat (map snd m))"
    by simp
  ultimately show ?case using s r by simp
qed

lemma shuffle_queues_wf: "bySub_wf m \<Longrightarrow> bySub_wf (fst (shuffle_queues g m))"
proof (induction g m rule: shuffle_queues.induct)
  case (1 g)
  then show ?case by simp
next
  case (2 g k v m)
  obtain v' g' where s: "shuffleArray g v = (v', g')" by (cases "shuffleArray g v")
  obtain m' g'' where r: "shuffle_queues g' m = (m', g'')" by (cases "shuffle_queues g' m")
  from s have v': "set v' = set v" using shuffleArray_set [of g v] by simp
  from "2.prems" have "bySub_wf m" by (auto simp: bySub_wf_def)
  with "2.IH" [OF s [symmetric]] r have wf': "bySub_wf m'" by simp
  have keys: "map fst (fst (shuffle_queues g' m)) = map fst m" for g'
    by (induction g' m rule: shuffle_queues.induct) (auto split: prod.splits)
  from keys [of g'] r have "map fst m' = map fst m" by simp
  with wf' v' "2.prems" show ?case using s r
    by (auto simp: bySub_wf_def)
qed

lemma drain_mset_perm: "mset xs = mset ys \<Longrightarrow> mset (drain xs) = mset (drain ys)"
proof -
  have "mset (drain zs) = sum_mset (image_mset (\<lambda>sub. mset (q sub)) (mset zs))" for zs
    by (induction zs) (auto simp: drain_def)
  then show "mset xs = mset ys \<Longrightarrow> mset (drain xs) = mset (drain ys)" by simp
qed

lemma groups_wf_perm: "mset xs = mset ys \<Longrightarrow> groups_wf xs \<Longrightarrow> groups_wf ys"
proof -
  assume eq: "mset xs = mset ys" and wf: "groups_wf xs"
  from eq have "mset (map subject xs) = mset (map subject ys)" by (metis mset_map)
  then have "distinct (map subject xs) = distinct (map subject ys)" by (rule mset_eq_imp_distinct_iff)
  moreover from eq have "set xs = set ys" by (rule mset_eq_setD)
  ultimately show ?thesis using wf by (simp add: groups_wf_def)
qed

lemma make_subjects_drain: "mset (drain (make_subjects m)) = mset (concat (map snd m))"
proof -
  have "mset (drain (make_subjects m))
      = mset (drain (map (\<lambda>(k, v). \<lparr>subject = k, q = v, count = int (length v)\<rparr>) m))"
    unfolding make_subjects_def by (rule drain_mset_perm) (rule js_sort_mset)
  also have "\<dots> = mset (concat (map snd m))"
    by (induction m) (auto simp: drain_def)
  finally show ?thesis .
qed

lemma make_subjects_wf: "bySub_wf m \<Longrightarrow> groups_wf (make_subjects m)"
proof -
  assume wf: "bySub_wf m"
  let ?gs = "map (\<lambda>(k, v). \<lparr>subject = k, q = v, count = int (length v)\<rparr>) m"
  have keys: "map subject ?gs = map fst m" by (induction m) auto
  from wf have "distinct (map subject ?gs)" unfolding keys by (simp add: bySub_wf_def)
  moreover from wf have "\<forall>sub \<in> set ?gs. \<forall>s \<in> set (q sub). subject_key s = subject sub"
    by (auto simp: bySub_wf_def)
  ultimately have "groups_wf ?gs" unfolding groups_wf_def by blast
  moreover have "mset ?gs = mset (make_subjects m)" by (simp add: make_subjects_def js_sort_mset)
  ultimately show ?thesis using groups_wf_perm by blast
qed

lemma initial_subjects_drain:
  "mset (drain (make_subjects (fst (shuffle_queues g (group_by_subject xs))))) = mset xs"
  by (simp add: make_subjects_drain shuffle_queues_mset group_by_subject_mset)

lemma initial_subjects_wf:
  "groups_wf (make_subjects (fst (shuffle_queues g (group_by_subject xs))))"
  by (simp add: make_subjects_wf shuffle_queues_wf group_by_subject_wf)

subsection \<open>One sweep\<close>

text \<open>
  What a sweep takes and what it leaves, as functions of the number \<open>n\<close> of free seats;
  \<open>seats capacity xs\<close> is the seat array of a hall whose first benches hold \<open>xs\<close>.
\<close>

fun sweep_taken :: "nat \<Rightarrow> subject_group list \<Rightarrow> student list" where
  "sweep_taken n [] = []"
| "sweep_taken n (sub # rest) =
     (if n = 0 then []
      else (case q sub of [] \<Rightarrow> sweep_taken n rest | s # ss \<Rightarrow> s # sweep_taken (n - 1) rest))"

fun sweep_left :: "nat \<Rightarrow> subject_group list \<Rightarrow> subject_group list" where
  "sweep_left n [] = []"
| "sweep_left n (sub # rest) =
     (if n = 0 then sub # rest
      else (case q sub of [] \<Rightarrow> sub # sweep_left n rest
            | s # ss \<Rightarrow> sub\<lparr>q := ss\<rparr> # sweep_left (n - 1) rest))"

definition seats :: "nat \<Rightarrow> student list \<Rightarrow> student option list" where
  "seats capacity xs = map Some xs @ replicate (capacity - length xs) None"

lemma seats_update:
  "length xs < capacity \<Longrightarrow> (seats capacity xs)[length xs := Some s] = seats capacity (xs @ [s])"
proof -
  assume "length xs < capacity"
  then obtain m where m: "capacity - length xs = Suc m" by (cases "capacity - length xs") auto
  then have "capacity - Suc (length xs) = m" by simp
  with m show ?thesis by (simp add: seats_def list_update_append)
qed

lemma sweep_pure:
  "length xs \<le> capacity \<Longrightarrow>
   sweep capacity subjects (seats capacity xs, length xs, placed) =
     (sweep_left (capacity - length xs) subjects,
      seats capacity (xs @ sweep_taken (capacity - length xs) subjects),
      length xs + length (sweep_taken (capacity - length xs) subjects),
      placed \<or> sweep_taken (capacity - length xs) subjects \<noteq> [])"
proof (induction subjects arbitrary: xs placed)
  case Nil
  then show ?case by simp
next
  case (Cons sub rest)
  show ?case
  proof (cases "length xs < capacity")
    case False
    with Cons.prems show ?thesis by simp
  next
    case True
    show ?thesis
    proof (cases "q sub")
      case Nil
      with True Cons.IH [OF Cons.prems, of placed] show ?thesis by simp
    next
      case (Cons s ss)
      from True have le: "length (xs @ [s]) \<le> capacity" by simp
      have d: "capacity - length (xs @ [s]) = capacity - length xs - 1" by simp
      have l: "length (xs @ [s]) = Suc (length xs)" by simp
      note IH = Cons.IH [OF le, of True, unfolded d l]
      from True Cons show ?thesis
        by (simp add: seats_update IH del: length_append)
    qed
  qed
qed

lemma sweep_taken_length: "length (sweep_taken n subjects) \<le> n"
proof (induction subjects arbitrary: n)
  case Nil
  then show ?case by simp
next
  case (Cons sub rest)
  show ?case
  proof (cases "q sub")
    case Nil
    with Cons.IH [of n] show ?thesis by simp
  next
    case (Cons s ss)
    with Cons.IH [of "n - 1"] show ?thesis by (cases n) auto
  qed
qed

lemma sweep_taken_mset:
  "mset (sweep_taken n subjects) + mset (drain (sweep_left n subjects)) = mset (drain subjects)"
proof (induction subjects arbitrary: n)
  case Nil
  then show ?case by simp
next
  case (Cons sub rest)
  show ?case
  proof (cases "q sub")
    case Nil
    with Cons.IH [of n] show ?thesis by (simp add: drain_def)
  next
    case (Cons s ss)
    with Cons.IH [of "n - 1"] show ?thesis by (simp add: drain_def)
  qed
qed

lemma sweep_taken_Nil: "0 < n \<Longrightarrow> sweep_taken n subjects = [] \<Longrightarrow> drain subjects = []"
proof (induction subjects)
  case Nil
  then show ?case by (simp add: drain_def)
next
  case (Cons sub rest)
  then show ?case by (cases "q sub") (auto simp: drain_def)
qed

subsection \<open>Filling one hall\<close>

lemma sweep_left_subject: "map subject (sweep_left n subjects) = map subject subjects"
proof (induction subjects arbitrary: n)
  case Nil
  then show ?case by simp
next
  case (Cons sub rest)
  then show ?case by (cases "q sub") auto
qed

lemma sweep_left_queues:
  "list_all2 (\<lambda>sub sub'. subject sub' = subject sub \<and> (q sub' = q sub \<or> q sub' = tl (q sub)))
     subjects (sweep_left n subjects)"
proof (induction subjects arbitrary: n)
  case Nil
  then show ?case by simp
next
  case (Cons sub rest)
  have refl: "list_all2 (\<lambda>sub sub'. subject sub' = subject sub \<and> (q sub' = q sub \<or> q sub' = tl (q sub))) rest rest"
    by (simp add: list_all2_same)
  show ?case
  proof (cases "q sub")
    case Nil
    with Cons.IH [of n] refl show ?thesis by simp
  next
    case (Cons s ss)
    with Cons.IH [of "n - 1"] refl show ?thesis by simp
  qed
qed

lemma sweep_left_wf: "groups_wf subjects \<Longrightarrow> groups_wf (sweep_left n subjects)"
proof -
  assume wf: "groups_wf subjects"
  let ?R = "\<lambda>sub sub'. subject sub' = subject sub \<and> (q sub' = q sub \<or> q sub' = tl (q sub))"
  have "\<forall>sub' \<in> set (sweep_left n subjects). \<forall>s \<in> set (q sub'). subject_key s = subject sub'"
  proof
    fix sub' assume "sub' \<in> set (sweep_left n subjects)"
    then obtain i where i: "i < length (sweep_left n subjects)" and s': "sub' = sweep_left n subjects ! i"
      by (auto simp: in_set_conv_nth)
    from sweep_left_queues [of subjects n] have len: "length subjects = length (sweep_left n subjects)"
      by (rule list_all2_lengthD)
    from list_all2_nthD2 [OF sweep_left_queues [of subjects n] i] s'
    have R: "?R (subjects ! i) sub'" by simp
    from i len have sub: "subjects ! i \<in> set subjects" by simp
    define sub where "sub = subjects ! i"
    note R = R [folded sub_def] and sub = sub [folded sub_def]
    from R have "set (q sub') \<subseteq> set (q sub)" by (cases "q sub") auto
    with wf sub R show "\<forall>s \<in> set (q sub'). subject_key s = subject sub'"
      by (auto simp: groups_wf_def)
  qed
  with wf show ?thesis by (simp add: groups_wf_def sweep_left_subject)
qed


lemma fill_spec:
  "length xs \<le> capacity \<Longrightarrow>
   \<exists>ys subjects'. fill capacity subjects (seats capacity xs) (length xs) = (subjects', seats capacity (xs @ ys))
      \<and> length (xs @ ys) \<le> capacity
      \<and> mset ys + mset (drain subjects') = mset (drain subjects)
      \<and> (length (xs @ ys) = capacity \<or> drain subjects' = [])
      \<and> (groups_wf subjects \<longrightarrow> groups_wf subjects')"
proof (induction "capacity - length xs" arbitrary: xs subjects rule: less_induct)
  case less
  show ?case
  proof (cases "length xs < capacity")
    case False
    with less.prems have "length xs = capacity" by simp
    moreover from False have "fill capacity subjects (seats capacity xs) (length xs) = (subjects, seats capacity xs)"
      by (simp add: fill.simps)
    ultimately show ?thesis by auto
  next
    case True
    let ?n = "capacity - length xs"
    let ?t = "sweep_taken ?n subjects"
    let ?L = "sweep_left ?n subjects"
    note sw = sweep_pure [OF less.prems, of subjects False]
    show ?thesis
    proof (cases "?t = []")
      case True': True
      with True sw have f: "fill capacity subjects (seats capacity xs) (length xs) = (?L, seats capacity (xs @ []))"
        by (simp add: fill.simps [of capacity subjects])
      from True True' have "drain subjects = []" using sweep_taken_Nil [of ?n subjects] by simp
      with sweep_taken_mset [of ?n subjects] True' have "drain ?L = []" by simp
      with f less.prems sweep_taken_mset [of ?n subjects] True' sweep_left_wf [of subjects ?n]
      show ?thesis by (intro exI [of _ "[]"] exI [of _ ?L]) simp
    next
      case False': False
      have tl: "length ?t \<le> ?n" by (rule sweep_taken_length)
      with True have le: "length (xs @ ?t) \<le> capacity" by simp
      from False' have "0 < length ?t" by simp
      with True tl have dec: "capacity - length (xs @ ?t) < capacity - length xs"
        unfolding length_append by linarith
      from less.hyps [OF dec le, of ?L] obtain ys subjects' where
        r: "fill capacity ?L (seats capacity (xs @ ?t)) (length (xs @ ?t)) = (subjects', seats capacity ((xs @ ?t) @ ys))"
        and l: "length ((xs @ ?t) @ ys) \<le> capacity"
        and m: "mset ys + mset (drain subjects') = mset (drain ?L)"
        and c: "length ((xs @ ?t) @ ys) = capacity \<or> drain subjects' = []"
        and w: "groups_wf ?L \<longrightarrow> groups_wf subjects'"
        by blast
      from True False' sw r have f: "fill capacity subjects (seats capacity xs) (length xs) = (subjects', seats capacity (xs @ (?t @ ys)))"
        by (simp add: fill.simps [of capacity subjects])
      have "mset (?t @ ys) + mset (drain subjects') = mset ?t + (mset ys + mset (drain subjects'))"
        by simp
      also have "\<dots> = mset ?t + mset (drain ?L)" by (simp only: m)
      also have "\<dots> = mset (drain subjects)" by (rule sweep_taken_mset)
      finally have m': "mset (?t @ ys) + mset (drain subjects') = mset (drain subjects)" .
      from w sweep_left_wf [of subjects ?n] have w': "groups_wf subjects \<longrightarrow> groups_wf subjects'" by blast
      from f l m' c w' show ?thesis
        by (intro exI [of _ "?t @ ys"] exI [of _ subjects']) simp
    qed
  qed
qed

lemma fill_fresh:
  "\<exists>ys subjects'. fill capacity subjects (replicate capacity None) 0 = (subjects', seats capacity ys)
      \<and> length ys = min capacity (length (drain subjects))
      \<and> mset ys + mset (drain subjects') = mset (drain subjects)
      \<and> (length ys = capacity \<or> drain subjects' = [])
      \<and> (groups_wf subjects \<longrightarrow> groups_wf subjects')"
proof -
  from fill_spec [of "[]" capacity subjects] obtain ys subjects' where
    f: "fill capacity subjects (seats capacity []) 0 = (subjects', seats capacity ys)"
    and l: "length ys \<le> capacity"
    and m: "mset ys + mset (drain subjects') = mset (drain subjects)"
    and c: "length ys = capacity \<or> drain subjects' = []"
    and w: "groups_wf subjects \<longrightarrow> groups_wf subjects'"
    by auto
  from m have "length ys + length (drain subjects') = length (drain subjects)"
    by (metis size_mset size_union)
  with l c have l': "length ys = min capacity (length (drain subjects))" by auto
  have s0: "seats capacity [] = replicate capacity None" by (simp add: seats_def)
  from f [unfolded s0] l' m c w show ?thesis by blast
qed

subsection \<open>Filling all halls\<close>

text \<open>
  \<open>hall_assignments hid ys\<close> seats the students \<open>ys\<close> on the benches \<open>1, 2, \<dots>\<close> of the hall
  \<open>hid\<close>; \<open>placed_in hallDefs yss\<close> does so hall by hall.
\<close>

definition hall_assignments :: "string \<Rightarrow> student list \<Rightarrow> assignment list" where
  "hall_assignments hid ys =
     map (\<lambda>(i, s). \<lparr>a_hall_id = hid, bench_index_in_hall = int i + 1, a_student = s\<rparr>) (enumerate 0 ys)"

definition placed_in :: "hall list \<Rightarrow> student list list \<Rightarrow> assignment list" where
  "placed_in hallDefs yss = concat (map (\<lambda>(h, ys). hall_assignments (hall_id h) ys) (zip hallDefs yss))"

definition position :: "assignment \<Rightarrow> string \<times> int" where
  "position a = (a_hall_id a, bench_index_in_hall a)"

lemma seats_to_assignments_None: "seats_to_assignments hid b (replicate n None) = []"
  by (induction n arbitrary: b) auto

lemma seats_to_assignments_seats_aux:
  "seats_to_assignments hid b (map Some ys @ replicate n None) =
     map (\<lambda>(i, s). \<lparr>a_hall_id = hid, bench_index_in_hall = int i + 1, a_student = s\<rparr>) (enumerate b ys)"
  by (induction ys arbitrary: b) (auto simp: seats_to_assignments_None)

lemma seats_to_assignments_seats:
  "seats_to_assignments hid 0 (seats capacity ys) = hall_assignments hid ys"
  by (simp add: seats_def hall_assignments_def seats_to_assignments_seats_aux)

lemma hall_assignments_student: "map a_student (hall_assignments hid ys) = ys"
proof -
  have "map a_student (map (\<lambda>(i, s). \<lparr>a_hall_id = hid, bench_index_in_hall = int i + 1, a_student = s\<rparr>) (enumerate b ys)) = ys" for b
    by (induction ys arbitrary: b) auto
  then show ?thesis by (simp add: hall_assignments_def)
qed

lemma hall_assignments_position:
  "map position (hall_assignments hid ys) = map (\<lambda>i. (hid, int i + 1)) [0..<length ys]"
proof -
  have "map position (map (\<lambda>(i, s). \<lparr>a_hall_id = hid, bench_index_in_hall = int i + 1, a_student = s\<rparr>) (enumerate b ys))
      = map (\<lambda>i. (hid, int i + 1)) [b..<b + length ys]" for b
    by (induction ys arbitrary: b) (auto simp: position_def upt_rec)
  from this [of 0] show ?thesis by (simp add: hall_assignments_def)
qed

lemma placed_in_Cons [simp]:
  "placed_in (h # hs) (ys # yss) = hall_assignments (hall_id h) ys @ placed_in hs yss"
  by (simp add: placed_in_def)

lemma placed_in_Nil [simp]: "placed_in [] yss = []"
  by (simp add: placed_in_def)

lemma fill_halls_spec:
  "\<forall>h \<in> set hallDefs. 0 \<le> benches h \<Longrightarrow>
   \<exists>yss subjects'. fill_halls subjects hallDefs acc = Inr (subjects', acc @ placed_in hallDefs yss)
     \<and> list_all2 (\<lambda>h ys. int (length ys) \<le> benches h) hallDefs yss
     \<and> mset (concat yss) + mset (drain subjects') = mset (drain subjects)
     \<and> (drain subjects' \<noteq> [] \<longrightarrow> list_all2 (\<lambda>h ys. int (length ys) = benches h) hallDefs yss)
     \<and> (groups_wf subjects \<longrightarrow> groups_wf subjects')"
proof (induction hallDefs arbitrary: subjects acc)
  case Nil
  show ?case by (intro exI [of _ "[]"] exI [of _ subjects]) simp
next
  case (Cons h hs)
  let ?cap = "nat (benches h)"
  from Cons.prems have h0: "0 \<le> benches h" and hs0: "\<forall>h \<in> set hs. 0 \<le> benches h" by auto
  from fill_fresh [of ?cap subjects] obtain ys subjects1 where
    f: "fill ?cap subjects (replicate ?cap None) 0 = (subjects1, seats ?cap ys)"
    and l: "length ys = min ?cap (length (drain subjects))"
    and m: "mset ys + mset (drain subjects1) = mset (drain subjects)"
    and c: "length ys = ?cap \<or> drain subjects1 = []"
    and w: "groups_wf subjects \<longrightarrow> groups_wf subjects1"
    by blast
  from Cons.IH [OF hs0, of subjects1 "acc @ hall_assignments (hall_id h) ys"] obtain yss subjects' where
    r: "fill_halls subjects1 hs (acc @ hall_assignments (hall_id h) ys)
          = Inr (subjects', (acc @ hall_assignments (hall_id h) ys) @ placed_in hs yss)"
    and l': "list_all2 (\<lambda>h ys. int (length ys) \<le> benches h) hs yss"
    and m': "mset (concat yss) + mset (drain subjects') = mset (drain subjects1)"
    and c': "drain subjects' \<noteq> [] \<longrightarrow> list_all2 (\<lambda>h ys. int (length ys) = benches h) hs yss"
    and w': "groups_wf subjects1 \<longrightarrow> groups_wf subjects'"
    by blast
  from h0 f r have 1: "fill_halls subjects (h # hs) acc = Inr (subjects', acc @ placed_in (h # hs) (ys # yss))"
    by (simp add: seats_to_assignments_seats)
  from l h0 l' have 2: "list_all2 (\<lambda>h ys. int (length ys) \<le> benches h) (h # hs) (ys # yss)"
    by simp
  have "mset (concat (ys # yss)) + mset (drain subjects') = mset ys + (mset (concat yss) + mset (drain subjects'))"
    by simp
  also have "\<dots> = mset ys + mset (drain subjects1)" by (simp only: m')
  also have "\<dots> = mset (drain subjects)" by (rule m)
  finally have 3: "mset (concat (ys # yss)) + mset (drain subjects') = mset (drain subjects)" .
  have 4: "drain subjects' \<noteq> [] \<longrightarrow> list_all2 (\<lambda>h ys. int (length ys) = benches h) (h # hs) (ys # yss)"
  proof
    assume ne: "drain subjects' \<noteq> []"
    with m' have "drain subjects1 \<noteq> []" by auto
    with c have "length ys = ?cap" by simp
    with h0 ne c' show "list_all2 (\<lambda>h ys. int (length ys) = benches h) (h # hs) (ys # yss)" by simp
  qed
  from w w' have 5: "groups_wf subjects \<longrightarrow> groups_wf subjects'" by blast
  from 1 2 3 4 5 show ?case by blast
qed

lemma fill_halls_error:
  "\<exists>h \<in> set hallDefs. benches h < 0 \<Longrightarrow> fill_halls subjects hallDefs acc = Inl RangeError"
proof (induction hallDefs arbitrary: subjects acc)
  case Nil
  then show ?case by simp
next
  case (Cons h hs)
  show ?case
  proof (cases "benches h < 0")
    case True
    then show ?thesis by simp
  next
    case False
    with Cons.prems have "\<exists>h \<in> set hs. benches h < 0" by auto
    from Cons.IH [OF this] False show ?thesis by (simp add: Let_def split: prod.splits)
  qed
qed

lemma backfill_full:
  "\<forall>p \<in> set positions. position_key (fst p) (snd p) \<in> used \<Longrightarrow>
     backfill remaining i positions used assignments = assignments"
  by (induction positions) (auto simp: Let_def)

lemma upto_as_upt: "[1..int n] = map (\<lambda>i. int i + 1) [0..<n]"
proof (induction n)
  case 0
  then show ?case by simp
next
  case (Suc n)
  have "[1..int (Suc n)] = [1..int n] @ [int n + 1]"
    using upto_rec2 [of 1 "int (Suc n)"] by (simp add: add.commute)
  with Suc show ?case by simp
qed

lemma placed_in_full:
  "list_all2 (\<lambda>h ys. int (length ys) = benches h) hallDefs yss \<Longrightarrow>
     map position (placed_in hallDefs yss) = all_positions hallDefs"
proof (induction hallDefs yss rule: list_all2_induct)
  case Nil
  then show ?case by (simp add: all_positions_def)
next
  case (Cons h hs ys yss)
  from Cons.hyps(1) have "[1..benches h] = map (\<lambda>i. int i + 1) [0..<length ys]"
    using upto_as_upt [of "length ys"] by simp
  with Cons.IH show ?case
    by (simp add: all_positions_def hall_assignments_position comp_def)
qed

subsection \<open>The result of the whole function\<close>

lemma distribute_spec:
  assumes "\<forall>h \<in> set hallDefs. 0 \<le> benches h"
  shows "\<exists>yss subjects'.
      primary_pass g studentsArr hallDefs = Inr (subjects', placed_in hallDefs yss)
    \<and> distributeBalanced g studentsArr hallDefs = Inr (placed_in hallDefs yss)
    \<and> list_all2 (\<lambda>h ys. int (length ys) \<le> benches h) hallDefs yss
    \<and> mset (concat yss) + mset (drain subjects') = mset studentsArr
    \<and> (drain subjects' \<noteq> [] \<longrightarrow> list_all2 (\<lambda>h ys. int (length ys) = benches h) hallDefs yss)
    \<and> groups_wf subjects'"
proof -
  let ?subjects = "make_subjects (fst (shuffle_queues g (group_by_subject studentsArr)))"
  from fill_halls_spec [OF assms, of ?subjects "[]"] obtain yss subjects' where
    r: "fill_halls ?subjects hallDefs [] = Inr (subjects', [] @ placed_in hallDefs yss)"
    and l: "list_all2 (\<lambda>h ys. int (length ys) \<le> benches h) hallDefs yss"
    and m: "mset (concat yss) + mset (drain subjects') = mset (drain ?subjects)"
    and c: "drain subjects' \<noteq> [] \<longrightarrow> list_all2 (\<lambda>h ys. int (length ys) = benches h) hallDefs yss"
    and w: "groups_wf ?subjects \<longrightarrow> groups_wf subjects'"
    by blast
  from r have p: "primary_pass g studentsArr hallDefs = Inr (subjects', placed_in hallDefs yss)"
    by (simp add: primary_pass_def)
  have d: "distributeBalanced g studentsArr hallDefs = Inr (placed_in hallDefs yss)"
  proof (cases "drain subjects' = []")
    case True
    with p show ?thesis by (simp add: distributeBalanced_def)
  next
    case False
    with c have full: "map position (placed_in hallDefs yss) = all_positions hallDefs"
      by (simp add: placed_in_full)
    let ?used = "set (map (\<lambda>a. position_key (a_hall_id a) (bench_index_in_hall a)) (placed_in hallDefs yss))"
    have "\<forall>p \<in> set (all_positions hallDefs). position_key (fst p) (snd p) \<in> ?used"
    proof
      fix p assume "p \<in> set (all_positions hallDefs)"
      then have "p \<in> position ` set (placed_in hallDefs yss)" unfolding full [symmetric] by simp
      then obtain a where a: "a \<in> set (placed_in hallDefs yss)" and pa: "p = position a" by blast
      from pa have "position_key (fst p) (snd p) = position_key (a_hall_id a) (bench_index_in_hall a)"
        by (simp add: position_def)
      with a show "position_key (fst p) (snd p) \<in> ?used" by simp
    qed
    then have bf: "backfill (drain subjects') 0 (all_positions hallDefs) ?used (placed_in hallDefs yss)
        = placed_in hallDefs yss"
      by (rule backfill_full)
    from False have "0 < length (drain subjects')" by simp
    then show ?thesis
      unfolding distributeBalanced_def p by (simp only: sum.case prod.case Let_def if_True bf)
  qed
  from m have m': "mset (concat yss) + mset (drain subjects') = mset studentsArr"
    by (simp only: initial_subjects_drain)
  from w have w': "groups_wf subjects'" by (simp add: initial_subjects_wf)
  from p d l m' c w' show ?thesis by blast
qed

lemma placed_in_length:
  "length yss = length hallDefs \<Longrightarrow> length (placed_in hallDefs yss) = length (concat yss)"
proof (induction hallDefs arbitrary: yss)
  case Nil
  then show ?case by simp
next
  case (Cons h hs)
  then obtain ys yss' where "yss = ys # yss'" by (cases yss) auto
  with Cons show ?case by (simp add: hall_assignments_def)
qed

lemma placed_in_students:
  "length yss = length hallDefs \<Longrightarrow> map a_student (placed_in hallDefs yss) = concat yss"
proof (induction hallDefs arbitrary: yss)
  case Nil
  then show ?case by simp
next
  case (Cons h hs)
  then obtain ys yss' where "yss = ys # yss'" by (cases yss) auto
  with Cons show ?case by (simp add: hall_assignments_student)
qed

lemma capacity_le:
  "list_all2 (\<lambda>h ys. int (length ys) \<le> benches h) hallDefs yss \<Longrightarrow>
     int (length (concat yss)) \<le> sum_list (map benches hallDefs)"
  by (induction hallDefs yss rule: list_all2_induct) auto

lemma capacity_eq:
  "list_all2 (\<lambda>h ys. int (length ys) = benches h) hallDefs yss \<Longrightarrow>
     int (length (concat yss)) = sum_list (map benches hallDefs)"
  by (induction hallDefs yss rule: list_all2_induct) auto

lemma placed_in_range:
  "list_all2 (\<lambda>h ys. int (length ys) \<le> benches h) hallDefs yss \<Longrightarrow>
   a \<in> set (placed_in hallDefs yss) \<Longrightarrow>
   \<exists>h \<in> set hallDefs. hall_id h = a_hall_id a \<and> 1 \<le> bench_index_in_hall a \<and> bench_index_in_hall a \<le> benches h"
proof (induction hallDefs yss rule: list_all2_induct)
  case Nil
  then show ?case by simp
next
  case (Cons h hs ys yss)
  from Cons.prems consider "a \<in> set (hall_assignments (hall_id h) ys)" | "a \<in> set (placed_in hs yss)"
    by auto
  then show ?case
  proof cases
    case 1
    then have "position a \<in> set (map position (hall_assignments (hall_id h) ys))" by simp
    then obtain i where "i < length ys" and "position a = (hall_id h, int i + 1)"
      unfolding hall_assignments_position by auto
    with Cons.hyps(1) show ?thesis by (auto simp: position_def)
  next
    case 2
    with Cons.IH show ?thesis by auto
  qed
qed

lemma hall_assignments_position_fst:
  "p \<in> set (map position (hall_assignments hid ys)) \<Longrightarrow> fst p = hid"
  unfolding hall_assignments_position by auto

lemma placed_in_position_fst:
  "p \<in> set (map position (placed_in hallDefs yss)) \<Longrightarrow> fst p \<in> hall_id ` set hallDefs"
proof (induction hallDefs arbitrary: yss)
  case Nil
  then show ?case by simp
next
  case (Cons h hs)
  show ?case
  proof (cases yss)
    case Nil
    with Cons.prems show ?thesis by (simp add: placed_in_def)
  next
    case (Cons ys yss')
    with Cons.prems have "p \<in> set (map position (hall_assignments (hall_id h) ys))
        \<or> p \<in> set (map position (placed_in hs yss'))"
      by (simp only: placed_in_Cons map_append set_append Un_iff)
    then show ?thesis
    proof
      assume "p \<in> set (map position (hall_assignments (hall_id h) ys))"
      then have "fst p = hall_id h" by (rule hall_assignments_position_fst)
      then show ?thesis by simp
    next
      assume "p \<in> set (map position (placed_in hs yss'))"
      then have "fst p \<in> hall_id ` set hs" by (rule Cons.IH)
      then show ?thesis by simp
    qed
  qed
qed

lemma hall_assignments_distinct: "distinct (map position (hall_assignments hid ys))"
proof -
  have "inj_on (\<lambda>i. (hid, int i + 1)) (set [0..<length ys])"
    by (rule inj_onI) simp
  then show ?thesis
    unfolding hall_assignments_position by (simp only: distinct_map distinct_upt simp_thms)
qed

lemma placed_in_distinct:
  "length yss = length hallDefs \<Longrightarrow> distinct (map hall_id hallDefs) \<Longrightarrow>
     distinct (map position (placed_in hallDefs yss))"
proof (induction hallDefs arbitrary: yss)
  case Nil
  then show ?case by simp
next
  case (Cons h hs)
  then obtain ys yss' where yss: "yss = ys # yss'" by (cases yss) auto
  have 1: "distinct (map position (hall_assignments (hall_id h) ys))"
    by (rule hall_assignments_distinct)
  from Cons.prems yss have "length yss' = length hs" and "distinct (map hall_id hs)" by simp_all
  then have 2: "distinct (map position (placed_in hs yss'))" by (rule Cons.IH)
  have 3: "set (map position (hall_assignments (hall_id h) ys)) \<inter> set (map position (placed_in hs yss')) = {}"
  proof (rule ccontr)
    assume "\<not> ?thesis"
    then obtain p where a: "p \<in> set (map position (hall_assignments (hall_id h) ys))"
      and b: "p \<in> set (map position (placed_in hs yss'))" by blast
    from a have "fst p = hall_id h" by (rule hall_assignments_position_fst)
    moreover from b have "fst p \<in> hall_id ` set hs" by (rule placed_in_position_fst)
    moreover from Cons.prems have "hall_id h \<notin> hall_id ` set hs" by simp
    ultimately show False by simp
  qed
  from 1 2 3 show ?case unfolding yss placed_in_Cons map_append by (simp only: distinct_append simp_thms)
qed

subsection \<open>More than the halls can seat\<close>

lemma distributeBalanced_overflow:
  assumes "\<forall>h \<in> set hallDefs. 0 \<le> benches h"
    and "sum_list (map benches hallDefs) < int (length studentsArr)"
  shows "\<exists>assignments. distributeBalanced g studentsArr hallDefs = Inr assignments
    \<and> mset (map a_student assignments) \<subseteq># mset studentsArr
    \<and> int (size (mset studentsArr - mset (map a_student assignments)))
          = int (length studentsArr) - sum_list (map benches hallDefs)
    \<and> map (\<lambda>a. (a_hall_id a, bench_index_in_hall a)) assignments = all_positions hallDefs"
proof -
  from distribute_spec [OF assms(1), of g studentsArr] obtain yss subjects' where
    d: "distributeBalanced g studentsArr hallDefs = Inr (placed_in hallDefs yss)"
    and l: "list_all2 (\<lambda>h ys. int (length ys) \<le> benches h) hallDefs yss"
    and m: "mset (concat yss) + mset (drain subjects') = mset studentsArr"
    and c: "drain subjects' \<noteq> [] \<longrightarrow> list_all2 (\<lambda>h ys. int (length ys) = benches h) hallDefs yss"
    by blast
  from l have len: "length yss = length hallDefs" by (simp add: list_all2_lengthD)
  have st: "map a_student (placed_in hallDefs yss) = concat yss"
    using len by (rule placed_in_students)
  from m have "size (mset (concat yss) + mset (drain subjects')) = size (mset studentsArr)"
    by simp
  then have sz: "length (concat yss) + length (drain subjects') = length studentsArr"
    by simp
  have ne: "drain subjects' \<noteq> []"
  proof
    assume "drain subjects' = []"
    with sz have "length (concat yss) = length studentsArr" by simp
    with capacity_le [OF l] assms(2) show False by linarith
  qed
  with c have full: "list_all2 (\<lambda>h ys. int (length ys) = benches h) hallDefs yss" by simp
  have 1: "mset (map a_student (placed_in hallDefs yss)) \<subseteq># mset studentsArr"
    unfolding st m [symmetric] by simp
  have "size (mset studentsArr - mset (concat yss)) = length (drain subjects')"
    unfolding m [symmetric] by simp
  with sz capacity_eq [OF full]
  have 2: "int (size (mset studentsArr - mset (map a_student (placed_in hallDefs yss))))
          = int (length studentsArr) - sum_list (map benches hallDefs)"
    unfolding st by linarith
  have 3: "map (\<lambda>a. (a_hall_id a, bench_index_in_hall a)) (placed_in hallDefs yss) = all_positions hallDefs"
    using placed_in_full [OF full] by (simp add: position_def [abs_def])
  show ?thesis
    apply (intro exI [of _ "placed_in hallDefs yss"] conjI)
       apply (rule d)
      apply (rule 1)
     apply (rule 2)
    apply (rule 3)
    done
qed


subsection \<open>Positions of the primary pass\<close>

lemma placed_in_positions:
  "length yss = length hallDefs \<Longrightarrow>
     map position (placed_in hallDefs yss)
       = concat (map2 (\<lambda>h k. map (\<lambda>b. (hall_id h, b)) [1..k]) hallDefs (map (\<lambda>ys. int (length ys)) yss))"
proof (induction hallDefs arbitrary: yss)
  case Nil
  then show ?case by simp
next
  case (Cons h hs)
  then obtain ys yss' where yss: "yss = ys # yss'" by (cases yss) auto
  with Cons.prems have "length yss' = length hs" by simp
  from Cons.IH [OF this] show ?case
    unfolding yss by (simp add: hall_assignments_position upto_as_upt comp_def)
qed


subsection \<open>Subjects within one sweep\<close>

lemma sweep_general:
  "idx \<le> capacity \<Longrightarrow> length hallSeats = capacity \<Longrightarrow>
   sweep capacity subjects (hallSeats, idx, placed) =
     (sweep_left (capacity - idx) subjects,
      take idx hallSeats @ map Some (sweep_taken (capacity - idx) subjects)
        @ drop (idx + length (sweep_taken (capacity - idx) subjects)) hallSeats,
      idx + length (sweep_taken (capacity - idx) subjects),
      placed \<or> sweep_taken (capacity - idx) subjects \<noteq> [])"
proof (induction subjects arbitrary: hallSeats idx placed)
  case Nil
  then show ?case by simp
next
  case (Cons sub rest)
  show ?case
  proof (cases "idx < capacity")
    case False
    with Cons.prems show ?thesis by simp
  next
    case True
    show ?thesis
    proof (cases "q sub")
      case Nil
      with True Cons.IH [OF Cons.prems, of placed] show ?thesis by simp
    next
      case (Cons s ss)
      from True have le: "Suc idx \<le> capacity" by simp
      from Cons.prems have len: "length (hallSeats[idx := Some s]) = capacity" by simp
      have d: "capacity - Suc idx = capacity - idx - 1" by simp
      from True Cons.prems have t: "take (Suc idx) (hallSeats[idx := Some s]) = take idx hallSeats @ [Some s]"
        by (simp add: take_Suc_conv_app_nth)
      have dr: "drop (Suc idx + n) (hallSeats[idx := Some s]) = drop (Suc (idx + n)) hallSeats" for n
        by simp
      note IH = Cons.IH [OF le len, of True, unfolded d t dr]
      from True Cons show ?thesis
        by (simp add: IH)
    qed
  qed
qed

lemma sweep_taken_keys:
  "\<forall>sub \<in> set subjects. \<forall>s \<in> set (q sub). subject_key s = subject sub \<Longrightarrow>
     set (map subject_key (sweep_taken n subjects)) \<subseteq> set (map subject subjects)"
proof (induction subjects arbitrary: n)
  case Nil
  then show ?case by simp
next
  case (Cons sub rest)
  from Cons.prems have r: "\<forall>sub \<in> set rest. \<forall>s \<in> set (q sub). subject_key s = subject sub" by simp
  show ?case
  proof (cases "q sub")
    case Nil
    with Cons.IH [OF r, of n] show ?thesis by auto
  next
    case (Cons s ss)
    with Cons.prems have "subject_key s = subject sub" by simp
    with Cons Cons.IH [OF r, of "n - 1"] show ?thesis by auto
  qed
qed

lemma sweep_taken_distinct:
  "groups_wf subjects \<Longrightarrow> distinct (map subject_key (sweep_taken n subjects))"
proof (induction subjects arbitrary: n)
  case Nil
  then show ?case by simp
next
  case (Cons sub rest)
  from Cons.prems have wf: "groups_wf rest"
    and r: "\<forall>sub \<in> set rest. \<forall>s \<in> set (q sub). subject_key s = subject sub"
    and new: "subject sub \<notin> set (map subject rest)"
    by (simp_all add: groups_wf_def)
  show ?case
  proof (cases "q sub")
    case Nil
    with Cons.IH [OF wf, of n] show ?thesis by simp
  next
    case (Cons s ss)
    with Cons.prems have k: "subject_key s = subject sub" by (simp add: groups_wf_def)
    from sweep_taken_keys [OF r, of "n - 1"] new k
    have "subject_key s \<notin> set (map subject_key (sweep_taken (n - 1) rest))" by auto
    with Cons Cons.IH [OF wf, of "n - 1"] show ?thesis by simp
  qed
qed

lemma fill_wf:
  "groups_wf subjects \<Longrightarrow> length hallSeats = capacity \<Longrightarrow> idx \<le> capacity \<Longrightarrow>
     groups_wf (fst (fill capacity subjects hallSeats idx))"
proof (induction capacity subjects hallSeats idx rule: fill.induct)
  case (1 capacity subjects hallSeats idx)
  show ?case
  proof (cases "idx < capacity")
    case False
    with "1.prems" show ?thesis by (simp add: fill.simps)
  next
    case True
    let ?t = "sweep_taken (capacity - idx) subjects"
    let ?hs = "take idx hallSeats @ map Some ?t @ drop (idx + length ?t) hallSeats"
    note sw = sweep_general [OF "1.prems"(3) "1.prems"(2), of subjects False]
    have wf': "groups_wf (sweep_left (capacity - idx) subjects)"
      using "1.prems"(1) by (rule sweep_left_wf)
    show ?thesis
    proof (cases "?t = []")
      case True': True
      with True sw wf' show ?thesis by (simp add: fill.simps [of capacity subjects])
    next
      case False
      have tl: "length ?t \<le> capacity - idx" by (rule sweep_taken_length)
      with True "1.prems" have l: "length ?hs = capacity" by simp
      from tl True have i: "idx + length ?t \<le> capacity" by simp
      from "1.IH" [OF True sw [symmetric] refl refl _ wf' l i] False
      have "groups_wf (fst (fill capacity (sweep_left (capacity - idx) subjects) ?hs (idx + length ?t)))"
        by simp
      with True False sw show ?thesis by (simp add: fill.simps [of capacity subjects])
    qed
  qed
qed

lemma subject_code_distinct:
  "distinct (map subject_key xs) \<Longrightarrow> distinct (map subject_code xs)"
proof -
  assume d: "distinct (map subject_key xs)"
  have "map subject_key xs = map (\<lambda>c. if c = [] then ''__NONE__'' else c) (map subject_code xs)"
    by (simp add: subject_key_def [abs_def] comp_def)
  with d show ?thesis by (simp only: distinct_map)
qed


subsection \<open>The pool of two subjects with two students each\<close>

lemma shuffleArray_two:
  "shuffleArray g [a, b] = (if even (g 0) then [b, a] else [a, b], (\<lambda>k. g (Suc k)))"
proof -
  have "g 0 mod Suc (Suc 0) = g 0 mod 2" by (simp add: numeral_2_eq_2)
  also have "\<dots> = (if even (g 0) then 0 else 1)" by (simp add: odd_iff_mod_2_eq_one)
  finally have m: "g 0 mod Suc (Suc 0) = (if even (g 0) then 0 else 1)" .
  show ?thesis
    by (simp add: shuffleArray_def random_index_def m)
qed

lemma example_groups:
  assumes "subject_code a = ''s1''" "subject_code b = ''s1''" "subject_code c = ''s2''" "subject_code d = ''s2''"
  shows "group_by_subject [a, b, c, d] = [(''s1'', [a, b]), (''s2'', [c, d])]"
  using assms by (simp add: group_by_subject_def subject_key_def)

lemma example_distribute:
  assumes "subject_code a = ''s1''" "subject_code b = ''s1''" "subject_code c = ''s2''" "subject_code d = ''s2''"
    and "benches h = 4"
  shows "\<exists>assignments. distributeBalanced g [a, b, c, d] [h] = Inr assignments
     \<and> map bench_index_in_hall assignments = [1, 2, 3, 4]
     \<and> map (\<lambda>x. subject_code (a_student x)) assignments = [''s1'', ''s2'', ''s1'', ''s2'']"
proof -
  have n4: "nat 4 = Suc (Suc (Suc (Suc 0)))" by simp
  have r4: "replicate 4 x = [x, x, x, x]" for x :: "student option" by (simp add: numeral_eq_Suc)
  show ?thesis
    using assms
    by (auto simp add: distributeBalanced_def primary_pass_def example_groups [OF assms(1-4)] shuffleArray_two
      make_subjects_def js_sort_def drain_def fill.simps n4 r4 Let_def)
qed

section \<open>Properties of the allocation handler\<close>

lemma ceil_div_pos:
  assumes "0 < n" and "0 < d"
  shows "\<exists>c. ceil_div n d = Some c \<and> c = \<lceil>real_of_int n / real_of_int d\<rceil> \<and> n \<le> d * c \<and> 0 < c"
proof -
  let ?c = "\<lceil>real_of_int n / real_of_int d\<rceil>"
  have le: "real_of_int n / real_of_int d \<le> real_of_int ?c" by (rule le_of_int_ceiling)
  from assms have "0 < real_of_int d" by simp
  from pos_divide_le_eq [OF this, of "real_of_int n" "real_of_int ?c"] le
  have "real_of_int n \<le> real_of_int ?c * real_of_int d" by blast
  then have "real_of_int n \<le> real_of_int d * real_of_int ?c" by (simp only: mult.commute)
  then have "real_of_int n \<le> real_of_int (d * ?c)" by simp
  then have 1: "n \<le> d * ?c" by (simp only: of_int_le_iff)
  from assms have "0 < real_of_int n / real_of_int d" by simp
  then have 2: "0 < ?c" by (simp only: zero_less_ceiling)
  from assms have "ceil_div n d = Some ?c" by (simp add: ceil_div_def)
  with 1 2 show ?thesis by simp
qed


lemma distribute_summary:
  assumes "\<forall>h \<in> set hallDefs. 0 \<le> benches h"
  shows "\<exists>yss. distributeBalanced g studentsArr hallDefs = Inr (placed_in hallDefs yss)
    \<and> list_all2 (\<lambda>h ys. int (length ys) \<le> benches h) hallDefs yss
    \<and> int (length (concat yss)) = min (int (length studentsArr)) (sum_list (map benches hallDefs))"
proof -
  from distribute_spec [OF assms, of g studentsArr] obtain yss subjects' where
    d: "distributeBalanced g studentsArr hallDefs = Inr (placed_in hallDefs yss)"
    and l: "list_all2 (\<lambda>h ys. int (length ys) \<le> benches h) hallDefs yss"
    and m: "mset (concat yss) + mset (drain subjects') = mset studentsArr"
    and c: "drain subjects' \<noteq> [] \<longrightarrow> list_all2 (\<lambda>h ys. int (length ys) = benches h) hallDefs yss"
    by blast
  from m have "size (mset (concat yss) + mset (drain subjects')) = size (mset studentsArr)"
    by simp
  then have sz: "length (concat yss) + length (drain subjects') = length studentsArr"
    by simp
  have "int (length (concat yss)) = min (int (length studentsArr)) (sum_list (map benches hallDefs))"
  proof (cases "drain subjects' = []")
    case True
    with sz have "length (concat yss) = length studentsArr" by simp
    with capacity_le [OF l] show ?thesis by linarith
  next
    case False
    with c have "int (length (concat yss)) = sum_list (map benches hallDefs)" by (simp add: capacity_eq)
    with sz show ?thesis by linarith
  qed
  with d l show ?thesis by blast
qed

lemma ceil_half_eq: "ceil_half n = (n + 1) div 2"
proof -
  have "ceil_half n = \<lceil>real_of_int n / real_of_int 2\<rceil>" by (simp add: ceil_half_def)
  also have "\<dots> = - (- n div 2)" by (rule ceiling_divide_eq_div)
  also have "\<dots> = (n + 1) div 2" by linarith
  finally show ?thesis .
qed

lemma odd_defs_update:
  "odd_defs hallDefs =
     map (\<lambda>h. h\<lparr>benches := \<lceil>real_of_int (benches h) / 2\<rceil>, cols := \<lceil>real_of_int (cols h) / 2\<rceil>\<rparr>) hallDefs"
  by (simp add: odd_defs_def ceil_half_def)

lemma odd_defs_range:
  assumes "a \<in> set (placed_in (odd_defs hallDefs) yss)"
    and "list_all2 (\<lambda>h ys. int (length ys) \<le> benches h) (odd_defs hallDefs) yss"
  shows "\<exists>h \<in> set hallDefs. a_hall_id a = hall_id h \<and> 1 \<le> bench_index_in_hall a
    \<and> bench_index_in_hall a \<le> \<lceil>real_of_int (benches h) / 2\<rceil>
    \<and> (bench_index_in_hall a - 1) * 2 + 1 \<le> benches h"
proof -
  from placed_in_range [OF assms(2) assms(1)] obtain h' where
    h': "h' \<in> set (odd_defs hallDefs)" and id: "hall_id h' = a_hall_id a"
    and lo: "1 \<le> bench_index_in_hall a" and hi: "bench_index_in_hall a \<le> benches h'"
    by blast
  from h' obtain h where h: "h \<in> set hallDefs" and hh: "hall_id h' = hall_id h"
    and b: "benches h' = ceil_half (benches h)"
    by (auto simp: odd_defs_def)
  from hi b have "bench_index_in_hall a \<le> (benches h + 1) div 2" by (simp add: ceil_half_eq)
  then have "(bench_index_in_hall a - 1) * 2 + 1 \<le> benches h" by presburger
  with h hh id lo hi b show ?thesis by (auto simp: ceil_half_def)
qed

lemma odd_example:
  assumes "benches h = 10" and "cols h = 5" and "length pool' = 3"
    and d: "distributeBalanced g' pool' (odd_defs [h]) = Inr a"
  shows "map bench_index_in_hall a = [1, 2, 3]"
proof -
  let ?h' = "\<lparr>hall_id = hall_id h, benches = ceil_half (benches h), rows = rows h, cols = ceil_half (cols h)\<rparr>"
  have o: "odd_defs [h] = [?h']" by (simp add: odd_defs_def)
  from assms(1) have b5: "benches ?h' = 5" by (simp add: ceil_half_eq)
  then have nn: "\<forall>x \<in> set (odd_defs [h]). 0 \<le> benches x" unfolding o by simp
  from distribute_summary [OF nn, of g' pool'] obtain yss where
    d': "distributeBalanced g' pool' (odd_defs [h]) = Inr (placed_in (odd_defs [h]) yss)"
    and l: "list_all2 (\<lambda>h ys. int (length ys) \<le> benches h) (odd_defs [h]) yss"
    and n: "int (length (concat yss)) = min (int (length pool')) (sum_list (map benches (odd_defs [h])))"
    by blast
  from l obtain ys where yss: "yss = [ys]" unfolding o by (auto simp: list_all2_Cons1)
  from n assms(3) b5 have len: "length ys = 3" unfolding o yss by simp
  from d d' have a: "a = placed_in (odd_defs [h]) yss" by simp
  have "map bench_index_in_hall a = map snd (map position a)"
    by (simp add: position_def comp_def)
  also have "\<dots> = map snd (map (\<lambda>i. (hall_id h, int i + 1)) [0..<length ys])"
    unfolding a o yss by (simp add: hall_assignments_position)
  also have "\<dots> = [1, 2, 3]" unfolding len by (simp add: comp_def upt_rec)
  finally show ?thesis .
qed

section \<open>Properties of the roster reconciliation\<close>

subsection \<open>Decimal digits and synthetic identifiers\<close>

lemma digit_char_value: "d < 10 \<Longrightarrow> int (of_char (digit_char d)) - 48 = int d"
proof -
  assume "d < 10"
  then have "d \<in> {0, 1, 2, 3, 4, 5, 6, 7, 8, 9}" by auto
  then show ?thesis by (auto simp: digit_char_def)
qed

lemma digits_value_snoc: "digits_value (ds @ [c]) = 10 * digits_value ds + (int (of_char c) - 48)"
  by (simp add: digits_value_def)

lemma digits_value_string_of_nat: "digits_value (string_of_nat n) = int n"
proof (induction n rule: string_of_nat.induct)
  case (1 n)
  show ?case
  proof (cases "n < 10")
    case True
    then have "string_of_nat n = [digit_char n]" by (subst string_of_nat.simps) simp
    with True digit_char_value [of n] show ?thesis by (simp add: digits_value_def)
  next
    case False
    then have s: "string_of_nat n = string_of_nat (n div 10) @ [digit_char (n mod 10)]"
      by (subst string_of_nat.simps) simp
    have "n mod 10 < 10" by simp
    from digit_char_value [OF this] "1.IH" [OF False]
    have "digits_value (string_of_nat n) = 10 * int (n div 10) + int (n mod 10)"
      unfolding s digits_value_snoc by simp
    also have "\<dots> = int n" by presburger
    finally show ?thesis .
  qed
qed

lemma digits_value_zeros: "digits_value (replicate k CHR ''0'' @ ds) = digits_value ds"
proof -
  have "foldl (\<lambda>a c. 10 * a + (int (of_char c) - 48)) 0 (replicate k CHR ''0'') = 0"
    by (induction k) simp_all
  then show ?thesis by (simp add: digits_value_def)
qed

lemma synthetic_id_value: "digits_value (drop 3 (synthetic_id k)) = int k"
  by (simp add: synthetic_id_def padStart_def digits_value_zeros digits_value_string_of_nat)

lemma synthetic_id_inj: "synthetic_id j = synthetic_id k \<Longrightarrow> j = k"
proof -
  assume "synthetic_id j = synthetic_id k"
  then have "digits_value (drop 3 (synthetic_id j)) = digits_value (drop 3 (synthetic_id k))" by simp
  then show "j = k" by (simp only: synthetic_id_value of_nat_eq_iff)
qed

lemma synthetic_id_not_empty: "synthetic_id k \<noteq> []"
  by (simp add: synthetic_id_def)

lemma string_of_nat_not_empty: "string_of_nat n \<noteq> []"
  by (subst string_of_nat.simps) simp

lemma synthetic_id_shape:
  "take 3 (synthetic_id k) = ''SYN'' \<and> digits_value (drop 3 (synthetic_id k)) = int k
     \<and> 7 \<le> length (synthetic_id k)"
proof -
  have "4 \<le> length (padStart 4 CHR ''0'' (string_of_nat k))"
    by (simp add: padStart_def)
  then have "7 \<le> length (synthetic_id k)" by (simp add: synthetic_id_def)
  moreover have "take 3 (synthetic_id k) = ''SYN''" by (simp add: synthetic_id_def)
  ultimately show ?thesis using synthetic_id_value [of k] by simp
qed

lemma synthetic_id_1_2: "synthetic_id 1 = ''SYN0001'' \<and> synthetic_id 2 = ''SYN0002''"
  by (simp add: synthetic_id_def padStart_def string_of_nat.simps digit_char_def numeral_3_eq_3)


subsection \<open>Dropping duplicates and synthesizing\<close>

lemma drop_duplicates_subset: "set (drop_duplicates seen xs) \<subseteq> set xs"
  by (induction xs arbitrary: seen) auto

lemma drop_duplicates_unseen:
  "s \<in> set (drop_duplicates seen xs) \<Longrightarrow> register_number s \<noteq> [] \<Longrightarrow> register_number s \<notin> seen"
proof (induction xs arbitrary: seen)
  case Nil
  then show ?case by simp
next
  case (Cons x xs)
  show ?case
  proof (cases "register_number x \<noteq> [] \<and> register_number x \<in> seen")
    case True
    with Cons.prems have "s \<in> set (drop_duplicates seen xs)" by simp
    from Cons.IH [OF this Cons.prems(2)] show ?thesis .
  next
    case False
    let ?seen = "if register_number x \<noteq> [] then insert (register_number x) seen else seen"
    from False Cons.prems have "s = x \<or> s \<in> set (drop_duplicates ?seen xs)" by auto
    then show ?thesis
    proof
      assume "s = x"
      with False Cons.prems(2) show ?thesis by simp
    next
      assume "s \<in> set (drop_duplicates ?seen xs)"
      from Cons.IH [OF this Cons.prems(2)] show ?thesis by (auto split: if_splits)
    qed
  qed
qed

lemma drop_duplicates_distinct:
  "distinct (filter (\<lambda>r. r \<noteq> []) (map register_number (drop_duplicates seen xs)))"
proof (induction xs arbitrary: seen)
  case Nil
  then show ?case by simp
next
  case (Cons x xs)
  show ?case
  proof (cases "register_number x \<noteq> [] \<and> register_number x \<in> seen")
    case True
    with Cons.IH [of seen] show ?thesis by simp
  next
    case False
    let ?seen = "if register_number x \<noteq> [] then insert (register_number x) seen else seen"
    show ?thesis
    proof (cases "register_number x = []")
      case True
      with Cons.IH [of seen] show ?thesis by simp
    next
      case ne: False
      have "register_number x \<notin> set (map register_number (drop_duplicates ?seen xs))"
      proof
        assume "register_number x \<in> set (map register_number (drop_duplicates ?seen xs))"
        then obtain s where s: "s \<in> set (drop_duplicates ?seen xs)" and e: "register_number s = register_number x"
          by auto
        from drop_duplicates_unseen [OF s] ne e show False by simp
      qed
      with False ne Cons.IH [of ?seen] show ?thesis by simp
    qed
  qed
qed

lemma synthesize_length: "length (synthesize c unique) = length unique"
  by (induction unique arbitrary: c) auto

lemma synthesize_nth:
  "i < length unique \<Longrightarrow>
     synthesize c unique ! i =
       (if register_number (unique ! i) = []
        then (unique ! i)\<lparr>register_number :=
               synthetic_id (c + length (filter (\<lambda>s. register_number s = []) (take i unique)))\<rparr>
        else unique ! i)"
proof (induction unique arbitrary: c i)
  case Nil
  then show ?case by simp
next
  case (Cons s unique)
  show ?case
  proof (cases i)
    case 0
    then show ?thesis by simp
  next
    case (Suc j)
    with Cons.prems have j: "j < length unique" by simp
    show ?thesis
    proof (cases "register_number s = []")
      case True
      with Suc Cons.IH [OF j, of "c + 1"] show ?thesis by simp
    next
      case False
      with Suc Cons.IH [OF j, of c] show ?thesis by simp
    qed
  qed
qed

lemma synthesize_not_empty: "s \<in> set (synthesize c unique) \<Longrightarrow> register_number s \<noteq> []"
  by (induction unique arbitrary: c) (auto simp: synthetic_id_not_empty split: if_splits)

lemma synthesize_registers:
  "r \<in> set (map register_number (synthesize c unique)) \<Longrightarrow>
     (r \<noteq> [] \<and> r \<in> set (map register_number unique)) \<or> (\<exists>k \<ge> c. r = synthetic_id k)"
proof (induction unique arbitrary: c)
  case Nil
  then show ?case by simp
next
  case (Cons s unique)
  show ?case
  proof (cases "register_number s = []")
    case True
    with Cons.prems have "r = synthetic_id c \<or> r \<in> set (map register_number (synthesize (c + 1) unique))"
      by auto
    then show ?thesis
    proof
      assume "r = synthetic_id c"
      then have "\<exists>k \<ge> c. r = synthetic_id k" by blast
      then show ?thesis by (rule disjI2)
    next
      assume "r \<in> set (map register_number (synthesize (c + 1) unique))"
      from Cons.IH [OF this] show ?thesis
      proof
        assume "r \<noteq> [] \<and> r \<in> set (map register_number unique)"
        then show ?thesis by simp
      next
        assume "\<exists>k \<ge> c + 1. r = synthetic_id k"
        then obtain k where "c + 1 \<le> k" and "r = synthetic_id k" by blast
        then have "c \<le> k \<and> r = synthetic_id k" by simp
        then have "\<exists>k \<ge> c. r = synthetic_id k" by blast
        then show ?thesis by (rule disjI2)
      qed
    qed
  next
    case False
    with Cons.prems have "r = register_number s \<or> r \<in> set (map register_number (synthesize c unique))"
      by auto
    then show ?thesis
    proof
      assume "r = register_number s"
      with False show ?thesis by simp
    next
      assume "r \<in> set (map register_number (synthesize c unique))"
      from Cons.IH [OF this] show ?thesis
      proof
        assume "r \<noteq> [] \<and> r \<in> set (map register_number unique)"
        then show ?thesis by simp
      next
        assume "\<exists>k \<ge> c. r = synthetic_id k"
        then show ?thesis by (rule disjI2)
      qed
    qed
  qed
qed

lemma synthesize_distinct:
  assumes "distinct (filter (\<lambda>r. r \<noteq> []) (map register_number unique))"
    and "\<forall>s \<in> set unique. \<forall>k. register_number s \<noteq> synthetic_id k"
  shows "distinct (map register_number (synthesize c unique))"
  using assms
proof (induction unique arbitrary: c)
  case Nil
  then show ?case by simp
next
  case (Cons s unique)
  from Cons.prems(1) have d: "distinct (filter (\<lambda>r. r \<noteq> []) (map register_number unique))"
    by (simp split: if_splits)
  from Cons.prems(2) have n: "\<forall>s \<in> set unique. \<forall>k. register_number s \<noteq> synthetic_id k"
    by simp
  have nosyn: "synthetic_id k \<notin> set (map register_number unique)" for k
  proof
    assume "synthetic_id k \<in> set (map register_number unique)"
    then obtain x where "x \<in> set unique" and "register_number x = synthetic_id k" by auto
    with n show False by blast
  qed
  show ?case
  proof (cases "register_number s = []")
    case True
    have "synthetic_id c \<notin> set (map register_number (synthesize (c + 1) unique))"
    proof
      assume "synthetic_id c \<in> set (map register_number (synthesize (c + 1) unique))"
      from synthesize_registers [OF this] show False
      proof
        assume "synthetic_id c \<noteq> [] \<and> synthetic_id c \<in> set (map register_number unique)"
        with nosyn [of c] show False by simp
      next
        assume "\<exists>k \<ge> c + 1. synthetic_id c = synthetic_id k"
        then obtain k where k: "c + 1 \<le> k" and "synthetic_id c = synthetic_id k" by blast
        then have "c = k" by (simp only: synthetic_id_inj)
        with k show False by simp
      qed
    qed
    with True Cons.IH [OF d n, of "c + 1"] show ?thesis by simp
  next
    case False
    from Cons.prems(1) False have notin: "register_number s \<notin> set (filter (\<lambda>r. r \<noteq> []) (map register_number unique))"
      by simp
    have "register_number s \<notin> set (map register_number (synthesize c unique))"
    proof
      assume "register_number s \<in> set (map register_number (synthesize c unique))"
      from synthesize_registers [OF this] show False
      proof
        assume "register_number s \<noteq> [] \<and> register_number s \<in> set (map register_number unique)"
        with notin show False by simp
      next
        assume "\<exists>k \<ge> c. register_number s = synthetic_id k"
        with Cons.prems(2) show False by simp
      qed
    qed
    with False Cons.IH [OF d n, of c] show ?thesis by simp
  qed
qed

lemma reconcile_mset: "mset (reconcile parsed) = mset (synthesize 1 (drop_duplicates {} parsed))"
  by (simp add: reconcile_def js_sort_mset)

lemma reconcile_not_empty: "s \<in> set (reconcile parsed) \<Longrightarrow> register_number s \<noteq> []"
proof -
  assume "s \<in> set (reconcile parsed)"
  moreover have "set (reconcile parsed) = set (synthesize 1 (drop_duplicates {} parsed))"
    by (rule mset_eq_setD) (rule reconcile_mset)
  ultimately have "s \<in> set (synthesize 1 (drop_duplicates {} parsed))" by simp
  then show ?thesis by (rule synthesize_not_empty)
qed

lemma reconcile_distinct:
  assumes "\<forall>s \<in> set parsed. \<forall>k. register_number s \<noteq> synthetic_id k"
  shows "distinct (map register_number (reconcile parsed))"
proof -
  let ?U = "drop_duplicates {} parsed"
  from assms drop_duplicates_subset [of "{}" parsed]
  have "\<forall>s \<in> set ?U. \<forall>k. register_number s \<noteq> synthetic_id k" by blast
  with drop_duplicates_distinct [of "{}" parsed]
  have "distinct (map register_number (synthesize 1 ?U))" by (rule synthesize_distinct)
  moreover have "mset (map register_number (reconcile parsed)) = mset (map register_number (synthesize 1 ?U))"
    by (simp only: mset_map reconcile_mset)
  ultimately show ?thesis using mset_eq_imp_distinct_iff by blast
qed

lemma drop_duplicates_first_occurrences:
  "drop_duplicates seen parsed =
     map (nth parsed)
       (filter (\<lambda>i. register_number (parsed ! i) = []
                  \<or> register_number (parsed ! i) \<notin> seen \<union> register_number ` set (take i parsed))
          [0..<length parsed])"
proof (induction parsed arbitrary: seen)
  case Nil
  then show ?case by simp
next
  case (Cons s parsed)
  let ?keep = "\<lambda>seen xs i. register_number (xs ! i) = []
                  \<or> register_number (xs ! i) \<notin> seen \<union> register_number ` set (take i xs)"
  let ?seen = "if register_number s \<noteq> [] then insert (register_number s) seen else seen"
  have up: "[0..<length (s # parsed)] = 0 # map Suc [0..<length parsed]"
  proof -
    have "[0..<Suc (length parsed)] = 0 # [Suc 0..<Suc (length parsed)]"
      by (rule upt_conv_Cons) simp
    then show ?thesis by (simp only: map_Suc_upt length_Cons)
  qed
  have shift: "?keep seen (s # parsed) \<circ> Suc = ?keep ?seen parsed"
    by (rule ext) auto
  have nth_shift: "nth (s # parsed) \<circ> Suc = nth parsed"
    by (rule ext) simp
  have "map (nth (s # parsed)) (filter (?keep seen (s # parsed)) (map Suc [0..<length parsed]))
      = map (nth (s # parsed) \<circ> Suc) (filter (?keep seen (s # parsed) \<circ> Suc) [0..<length parsed])"
    by (simp only: filter_map map_map)
  then have tail: "map (nth (s # parsed)) (filter (?keep seen (s # parsed)) (map Suc [0..<length parsed]))
      = map (nth parsed) (filter (?keep ?seen parsed) [0..<length parsed])"
    by (simp only: shift nth_shift)
  have head: "?keep seen (s # parsed) 0 \<longleftrightarrow> \<not> (register_number s \<noteq> [] \<and> register_number s \<in> seen)"
    by simp
  show ?case
  proof (cases "register_number s \<noteq> [] \<and> register_number s \<in> seen")
    case True
    then have same: "?seen = seen" by auto
    from True have "drop_duplicates seen (s # parsed) = drop_duplicates seen parsed" by simp
    also have "\<dots> = map (nth parsed) (filter (?keep seen parsed) [0..<length parsed])"
      by (rule Cons.IH)
    also have "\<dots> = map (nth (s # parsed)) (filter (?keep seen (s # parsed)) (map Suc [0..<length parsed]))"
      unfolding tail same ..
    also have "\<dots> = map (nth (s # parsed)) (filter (?keep seen (s # parsed)) [0..<length (s # parsed)])"
      unfolding up using True head by simp
    finally show ?thesis .
  next
    case False
    then have "drop_duplicates seen (s # parsed) = s # drop_duplicates ?seen parsed" by auto
    also have "\<dots> = s # map (nth parsed) (filter (?keep ?seen parsed) [0..<length parsed])"
      by (simp only: Cons.IH)
    also have "\<dots> = s # map (nth (s # parsed)) (filter (?keep seen (s # parsed)) (map Suc [0..<length parsed]))"
      unfolding tail ..
    also have "\<dots> = map (nth (s # parsed)) (filter (?keep seen (s # parsed)) [0..<length (s # parsed)])"
      unfolding up using False head by simp
    finally show ?thesis .
  qed
qed

section \<open>Properties of the hall list\<close>

lemma js_insert_set: "set (js_insert cmp x ys) = insert x (set ys)"
  by (induction ys) auto

lemma js_insert_sorted:
  fixes key :: "'a \<Rightarrow> 'k::linorder"
  assumes "sorted (map key ys)"
  shows "sorted (map key (js_insert (\<lambda>a b. if key a < key b then - 1 else 1) x ys))"
  using assms
proof (induction ys)
  case Nil
  then show ?case by simp
next
  case (Cons y ys)
  let ?cmp = "\<lambda>a b. if key a < key b then - 1 else (1::int)"
  show ?case
  proof (cases "key x < key y")
    case True
    with Cons.prems show ?thesis by auto
  next
    case False
    from Cons.prems have s: "sorted (map key ys)" and le: "\<forall>z \<in> set ys. key y \<le> key z"
      by simp_all
    from False have "key y \<le> key x" by simp
    with le have "\<forall>z \<in> set (js_insert ?cmp x ys). key y \<le> key z"
      by (simp add: js_insert_set)
    with False Cons.IH [OF s] show ?thesis by simp
  qed
qed

lemma js_sort_sorted:
  fixes key :: "'a \<Rightarrow> 'k::linorder"
  shows "sorted (map key (js_sort (\<lambda>a b. if key a < key b then - 1 else 1) xs))"
proof -
  let ?cmp = "\<lambda>a b. if key a < key b then - 1 else (1::int)"
  have "sorted (map key acc) \<Longrightarrow> sorted (map key (foldl (\<lambda>sorted x. js_insert ?cmp x sorted) acc xs))" for acc
  proof (induction xs arbitrary: acc)
    case Nil
    then show ?case by simp
  next
    case (Cons x xs)
    from Cons.prems have "sorted (map key (js_insert ?cmp x acc))" by (rule js_insert_sorted)
    from Cons.IH [OF this] show ?case by simp
  qed
  from this [of "[]"] show ?thesis by (simp add: js_sort_def)
qed

lemma sorted_distinct_unique:
  fixes key :: "'a \<Rightarrow> 'k::linorder"
  assumes "mset xs = mset ys" and "distinct (map key xs)"
    and "sorted (map key xs)" and "sorted (map key ys)"
  shows "xs = ys"
proof -
  from assms(1) have m: "mset (map key xs) = mset (map key ys)" by (simp only: mset_map)
  with assms(2) have d: "distinct (map key ys)" using mset_eq_imp_distinct_iff by blast
  from m have "set (map key xs) = set (map key ys)" by (rule mset_eq_setD)
  with assms(3) assms(2) assms(4) d have k: "map key xs = map key ys"
    by (rule sorted_distinct_set_unique)
  from assms(1) have "set xs = set ys" by (rule mset_eq_setD)
  moreover from assms(2) have "inj_on key (set xs)" by (simp add: distinct_map)
  ultimately have "inj_on key (set xs \<union> set ys)" by simp
  then have "(map key xs = map key ys) = (xs = ys)" by (rule inj_on_map_eq_map)
  with k show ?thesis by simp
qed

lemma js_sort_order_independent:
  fixes key :: "'a \<Rightarrow> 'k::linorder"
  assumes "mset xs = mset ys" and "distinct (map key xs)"
  shows "js_sort (\<lambda>a b. if key a < key b then - 1 else 1) xs
       = js_sort (\<lambda>a b. if key a < key b then - 1 else 1) ys"
proof -
  let ?cmp = "\<lambda>a b. if key a < key b then - 1 else (1::int)"
  have m: "mset (js_sort ?cmp xs) = mset (js_sort ?cmp ys)" by (simp only: js_sort_mset assms(1))
  have "mset (map key (js_sort ?cmp xs)) = mset (map key xs)" by (simp only: mset_map js_sort_mset)
  with assms(2) have d: "distinct (map key (js_sort ?cmp xs))" using mset_eq_imp_distinct_iff by blast
  have s1: "sorted (map key (js_sort ?cmp xs))" and s2: "sorted (map key (js_sort ?cmp ys))"
    by (rule js_sort_sorted)+
  from m d s1 s2 show ?thesis by (rule sorted_distinct_unique)
qed

lemma resolve_hall_id: "resolve_hall h = Some res \<Longrightarrow> hall_id res = raw_hall_id h"
proof -
  assume a: "resolve_hall h = Some res"
  let ?n = "case raw_benches h of None \<Rightarrow> 30 | Some b \<Rightarrow> if b = 0 then 30 else b"
  obtain r c where f: "fill_missing_dimension ?n (or_null (raw_rows h)) (or_null (raw_cols h)) = Some (r, c)"
    using a by (cases "fill_missing_dimension ?n (or_null (raw_rows h)) (or_null (raw_cols h))")
      (auto simp: resolve_hall_def)
  show ?thesis
  proof (cases "r * c < ?n")
    case True
    with a f obtain c' where "res = \<lparr>hall_id = raw_hall_id h, benches = ?n, rows = r, cols = c'\<rparr>"
      by (cases "ceil_div ?n r") (auto simp: resolve_hall_def)
    then show ?thesis by simp
  next
    case False
    with a f have "res = \<lparr>hall_id = raw_hall_id h, benches = ?n, rows = r, cols = c\<rparr>"
      by (auto simp: resolve_hall_def)
    then show ?thesis by simp
  qed
qed

lemma those_map_Some:
  "those (map f xs) = Some ys \<Longrightarrow> list_all2 (\<lambda>x y. f x = Some y) xs ys"
proof (induction xs arbitrary: ys)
  case Nil
  then show ?case by simp
next
  case (Cons x xs)
  then show ?case by (auto split: option.splits)
qed

lemma resolve_halls_ids:
  "resolve_halls rawHalls = Some hallDefs \<Longrightarrow> map hall_id hallDefs = map raw_hall_id rawHalls"
proof -
  assume "resolve_halls rawHalls = Some hallDefs"
  then have "list_all2 (\<lambda>h res. resolve_hall h = Some res) rawHalls hallDefs"
    unfolding resolve_halls_def by (rule those_map_Some)
  then show ?thesis
    by (induction rawHalls hallDefs rule: list_all2_induct) (simp_all add: resolve_hall_id)
qed

lemma parse_hall_index:
  "hallKey (map fst r) \<noteq> None \<Longrightarrow> parse_hall defaultBenches i r = parse_hall defaultBenches 0 r"
  by (auto simp: parse_hall_def Let_def)

lemma enumerate_parse_hall:
  "\<forall>r \<in> set raw. hallKey (map fst r) \<noteq> None \<Longrightarrow>
     map (\<lambda>(i, r). parse_hall defaultBenches i r) (enumerate n raw) = map (parse_hall defaultBenches 0) raw"
proof (induction raw arbitrary: n)
  case Nil
  then show ?case by simp
next
  case (Cons r raw)
  from Cons.prems have "hallKey (map fst r) \<noteq> None" by simp
  then have 1: "parse_hall defaultBenches n r = parse_hall defaultBenches 0 r"
    by (rule parse_hall_index)
  from Cons.prems have "\<forall>r \<in> set raw. hallKey (map fst r) \<noteq> None" by simp
  then have 2: "map (\<lambda>(i, r). parse_hall defaultBenches i r) (enumerate (Suc n) raw)
      = map (parse_hall defaultBenches 0) raw"
    by (rule Cons.IH)
  show ?case by (simp only: enumerate_simps list.map prod.case 1 2)
qed

section \<open>Properties of the student row parser\<close>

lemma dropWhile_id: "xs = [] \<or> \<not> P (hd xs) \<Longrightarrow> dropWhile P xs = xs"
  by (cases xs) auto

lemma hd_rev_suffix:
  assumes "t = [] \<or> \<not> P (hd t)" and "rev t = ws @ u" and "u \<noteq> []"
  shows "\<not> P (hd (rev u))"
proof -
  from assms(2) have "rev (rev t) = rev (ws @ u)" by simp
  then have t: "t = rev u @ rev ws" by simp
  with assms(3) have "t \<noteq> []" and "hd t = hd (rev u)" by simp_all
  with assms(1) show ?thesis by simp
qed

lemma dropWhile_rev_dropWhile:
  "dropWhile P (rev (dropWhile P (rev (dropWhile P s)))) = rev (dropWhile P (rev (dropWhile P s)))"
proof -
  define t where "t = dropWhile P s"
  define u where "u = dropWhile P (rev t)"
  have t: "t = [] \<or> \<not> P (hd t)" unfolding t_def using hd_dropWhile [of P s] by blast
  have r: "rev t = takeWhile P (rev t) @ u" unfolding u_def by simp
  have "u \<noteq> [] \<Longrightarrow> \<not> P (hd (rev u))"
    using t r by (rule hd_rev_suffix [where P = P and t = t and ws = "takeWhile P (rev t)" and u = u])
  then have "rev u = [] \<or> \<not> P (hd (rev u))" by auto
  then have "dropWhile P (rev u) = rev u" by (rule dropWhile_id)
  then show ?thesis unfolding u_def t_def .
qed

lemma trim_idem: "trim (trim s) = trim s"
  by (simp add: trim_def dropWhile_rev_dropWhile)

lemma cell_text_trimmed: "trim (cell_text r k) = cell_text r k"
  by (simp add: cell_text_def trim_idem)

text \<open>
  The test of the fallback scan on the column \<open>k\<close> of the row \<open>r\<close>: the trimmed text of the
  cell is not empty, at most 8 characters long and contains an ASCII letter or digit, and
  the lower-case header does not contain \<open>name\<close>.
\<close>

definition scan_accepts :: "row \<Rightarrow> string \<Rightarrow> bool" where
  "scan_accepts r k \<longleftrightarrow>
     cell_text r k \<noteq> [] \<and> length (cell_text r k) \<le> 8 \<and> (\<exists>c \<in> set (cell_text r k). is_alnum c)
       \<and> \<not> str_includes (toLowerCase k) ''name''"

lemma subject_scan_first:
  "(\<exists>pre k post. keys = pre @ k # post \<and> (\<forall>k' \<in> set pre. \<not> scan_accepts r k') \<and> scan_accepts r k
       \<and> subject_scan r keys = cell_text r k)
   \<or> ((\<forall>k \<in> set keys. \<not> scan_accepts r k) \<and> subject_scan r keys = [])"
proof (induction keys)
  case Nil
  then show ?case by simp
next
  case (Cons k keys)
  show ?case
  proof (cases "scan_accepts r k")
    case True
    then have "subject_scan r (k # keys) = cell_text r k"
      by (simp add: scan_accepts_def list_ex_iff Let_def)
    with True have "k # keys = [] @ k # keys \<and> (\<forall>k' \<in> set []. \<not> scan_accepts r k') \<and> scan_accepts r k
       \<and> subject_scan r (k # keys) = cell_text r k" by simp
    then show ?thesis by blast
  next
    case False
    then have s: "subject_scan r (k # keys) = subject_scan r keys"
      by (auto simp: scan_accepts_def list_ex_iff Let_def)
    from Cons.IH show ?thesis
    proof
      assume "\<exists>pre k' post. keys = pre @ k' # post \<and> (\<forall>k'' \<in> set pre. \<not> scan_accepts r k'')
         \<and> scan_accepts r k' \<and> subject_scan r keys = cell_text r k'"
      then obtain pre k' post where "keys = pre @ k' # post" "\<forall>k'' \<in> set pre. \<not> scan_accepts r k''"
        "scan_accepts r k'" "subject_scan r keys = cell_text r k'" by blast
      with False s have "k # keys = (k # pre) @ k' # post \<and> (\<forall>k'' \<in> set (k # pre). \<not> scan_accepts r k'')
         \<and> scan_accepts r k' \<and> subject_scan r (k # keys) = cell_text r k'" by simp
      then show ?thesis by blast
    next
      assume "(\<forall>k \<in> set keys. \<not> scan_accepts r k) \<and> subject_scan r keys = []"
      with False s show ?thesis by simp
    qed
  qed
qed

lemma fallback_subject_code:
  assumes "courseCol (map fst r) = None \<or> (\<exists>k. courseCol (map fst r) = Some k \<and> cell_text r k = [])"
    and "subjCol (map fst r) = None \<or> (\<exists>k. subjCol (map fst r) = Some k \<and> cell_text r k = [])"
  shows "subject_code (parseStudentRowRobust extract r) = toUpperCase (trim (subject_scan r (map fst r)))"
proof -
  from assms(1) have c: "(case courseCol (map fst r) of Some k \<Rightarrow> if cell_text r k \<noteq> [] then Some k else None
      | None \<Rightarrow> None) = None"
    by (auto split: option.splits)
  from assms(2) have s: "(case subjCol (map fst r) of Some k \<Rightarrow> if cell_text r k \<noteq> [] then Some k else None
      | None \<Rightarrow> None) = None"
    by (auto split: option.splits)
  show ?thesis
    by (simp add: parseStudentRowRobust_def Let_def c s split: prod.splits)
qed

section \<open>The claims\<close>

text \<open>
  Claim C1, as stated, fails: the engine numbers the benches of every hall from 1 and
  writes the hall's identifier to the assignment without comparing the identifiers of the
  halls. Two halls of one bench each, both called \<^verbatim>\<open>H\<close>, and a pool of two students give
  two assignments at the position \<^verbatim>\<open>(H, 1)\<close>.
\<close>

theorem distributeBalanced_repeated_hall_id:
  "distributeBalanced (\<lambda>_. 0)
       [\<lparr>register_number = ''R1'', student_name = ''A'', subject_code = ''S1''\<rparr>,
        \<lparr>register_number = ''R2'', student_name = ''B'', subject_code = ''S2''\<rparr>]
       [\<lparr>hall_id = ''H'', benches = 1, rows = 1, cols = 1\<rparr>,
        \<lparr>hall_id = ''H'', benches = 1, rows = 1, cols = 1\<rparr>]
   = Inr [\<lparr>a_hall_id = ''H'', bench_index_in_hall = 1,
            a_student = \<lparr>register_number = ''R1'', student_name = ''A'', subject_code = ''S1''\<rparr>\<rparr>,
          \<lparr>a_hall_id = ''H'', bench_index_in_hall = 1,
            a_student = \<lparr>register_number = ''R2'', student_name = ''B'', subject_code = ''S2''\<rparr>\<rparr>]"
  by code_simp


text \<open>
  Claim C1, amended. For every student pool and every sequence of halls with positive bench
  counts, \<^verbatim>\<open>distributeBalanced\<close> returns assignments whose number is the minimum of the pool
  size and the sum of the bench counts; the bench index of every assignment lies between 1
  and the bench count of a hall with the identifier of the assignment; and, when the
  identifiers of the halls are pairwise different, no position (hall, bench) is assigned
  twice.
\<close>

theorem distributeBalanced_coverage:
  assumes "\<forall>h \<in> set hallDefs. 0 < benches h"
  shows "\<exists>assignments. distributeBalanced g studentsArr hallDefs = Inr assignments
    \<and> int (length assignments) = min (int (length studentsArr)) (sum_list (map benches hallDefs))
    \<and> (\<forall>a \<in> set assignments. \<exists>h \<in> set hallDefs.
          hall_id h = a_hall_id a \<and> 1 \<le> bench_index_in_hall a \<and> bench_index_in_hall a \<le> benches h)
    \<and> (distinct (map hall_id hallDefs) \<longrightarrow>
          distinct (map (\<lambda>a. (a_hall_id a, bench_index_in_hall a)) assignments))"
proof -
  from assms have nonneg: "\<forall>h \<in> set hallDefs. 0 \<le> benches h" by auto
  from distribute_spec [OF nonneg, of g studentsArr] obtain yss subjects' where
    d: "distributeBalanced g studentsArr hallDefs = Inr (placed_in hallDefs yss)"
    and l: "list_all2 (\<lambda>h ys. int (length ys) \<le> benches h) hallDefs yss"
    and m: "mset (concat yss) + mset (drain subjects') = mset studentsArr"
    and c: "drain subjects' \<noteq> [] \<longrightarrow> list_all2 (\<lambda>h ys. int (length ys) = benches h) hallDefs yss"
    by blast
  from l have len: "length yss = length hallDefs" by (simp add: list_all2_lengthD)
  from m have "size (mset (concat yss) + mset (drain subjects')) = size (mset studentsArr)"
    by simp
  then have sz: "length (concat yss) + length (drain subjects') = length studentsArr"
    by simp
  have "int (length (concat yss)) = min (int (length studentsArr)) (sum_list (map benches hallDefs))"
  proof (cases "drain subjects' = []")
    case True
    with sz have "length (concat yss) = length studentsArr" by simp
    with capacity_le [OF l] show ?thesis by linarith
  next
    case False
    with c have "int (length (concat yss)) = sum_list (map benches hallDefs)" by (simp add: capacity_eq)
    with sz show ?thesis by linarith
  qed
  then have 1: "int (length (placed_in hallDefs yss)) = min (int (length studentsArr)) (sum_list (map benches hallDefs))"
    by (simp add: placed_in_length len)
  have 2: "\<forall>a \<in> set (placed_in hallDefs yss). \<exists>h \<in> set hallDefs.
          hall_id h = a_hall_id a \<and> 1 \<le> bench_index_in_hall a \<and> bench_index_in_hall a \<le> benches h"
    using placed_in_range [OF l] by blast
  have 3: "distinct (map hall_id hallDefs) \<longrightarrow>
          distinct (map (\<lambda>a. (a_hall_id a, bench_index_in_hall a)) (placed_in hallDefs yss))"
    using placed_in_distinct [OF len] by (simp add: position_def [abs_def])
  show ?thesis
    apply (intro exI [of _ "placed_in hallDefs yss"] conjI)
       apply (rule d)
      apply (rule 1)
     apply (rule 2)
    apply (rule 3)
    done
qed

text \<open>
  The theorem at a pool of three students and two halls of two benches each: all three are
  seated, on three different positions.
\<close>

theorem distributeBalanced_coverage_witness:
  "\<exists>assignments.
     distributeBalanced (\<lambda>_. 0)
       [\<lparr>register_number = ''R1'', student_name = ''A'', subject_code = ''S1''\<rparr>,
        \<lparr>register_number = ''R2'', student_name = ''B'', subject_code = ''S1''\<rparr>,
        \<lparr>register_number = ''R3'', student_name = ''C'', subject_code = ''S2''\<rparr>]
       [\<lparr>hall_id = ''H1'', benches = 2, rows = 1, cols = 2\<rparr>,
        \<lparr>hall_id = ''H2'', benches = 2, rows = 1, cols = 2\<rparr>] = Inr assignments
     \<and> int (length assignments) = 3
     \<and> distinct (map (\<lambda>a. (a_hall_id a, bench_index_in_hall a)) assignments)"
  using distributeBalanced_coverage [of
      "[\<lparr>hall_id = ''H1'', benches = 2, rows = 1, cols = 2\<rparr>,
        \<lparr>hall_id = ''H2'', benches = 2, rows = 1, cols = 2\<rparr>]"
      "\<lambda>_. 0"
      "[\<lparr>register_number = ''R1'', student_name = ''A'', subject_code = ''S1''\<rparr>,
        \<lparr>register_number = ''R2'', student_name = ''B'', subject_code = ''S1''\<rparr>,
        \<lparr>register_number = ''R3'', student_name = ''C'', subject_code = ''S2''\<rparr>]"]
  by auto

text \<open>
  Claim C4. When the pool is larger than the total bench capacity of the halls (bench counts
  not negative), \<^verbatim>\<open>distributeBalanced\<close> returns a value, not an error: the assignments seat
  students of the pool, each at most as often as the pool has the student, every bench of
  every hall is taken, and the number of students of the pool left without an assignment is
  the pool size minus the total capacity. In particular, for one hall of 3 benches and a
  pool of 5 students of one subject, 3 assignments are returned, on the benches 1, 2, 3, and
  2 students are left out.
\<close>

theorem distributeBalanced_drops_excess:
  "((\<forall>h \<in> set hallDefs. 0 \<le> benches h) \<and> sum_list (map benches hallDefs) < int (length studentsArr) \<longrightarrow>
      (\<exists>assignments. distributeBalanced g studentsArr hallDefs = Inr assignments
        \<and> mset (map a_student assignments) \<subseteq># mset studentsArr
        \<and> int (size (mset studentsArr - mset (map a_student assignments)))
              = int (length studentsArr) - sum_list (map benches hallDefs)
        \<and> map (\<lambda>a. (a_hall_id a, bench_index_in_hall a)) assignments = all_positions hallDefs))
   \<and> (length pool = 5 \<and> (\<forall>s \<in> set pool. subject_code s = code) \<and> benches h = 3 \<longrightarrow>
      (\<exists>assignments. distributeBalanced g pool [h] = Inr assignments
        \<and> length assignments = 3
        \<and> map bench_index_in_hall assignments = [1, 2, 3]
        \<and> mset (map a_student assignments) \<subseteq># mset pool
        \<and> size (mset pool - mset (map a_student assignments)) = 2))"
proof (intro conjI impI)
  assume "(\<forall>h \<in> set hallDefs. 0 \<le> benches h) \<and> sum_list (map benches hallDefs) < int (length studentsArr)"
  then have "\<forall>h \<in> set hallDefs. 0 \<le> benches h"
    and "sum_list (map benches hallDefs) < int (length studentsArr)"
    by (rule conjunct1, rule conjunct2)
  then show "\<exists>assignments. distributeBalanced g studentsArr hallDefs = Inr assignments
        \<and> mset (map a_student assignments) \<subseteq># mset studentsArr
        \<and> int (size (mset studentsArr - mset (map a_student assignments)))
              = int (length studentsArr) - sum_list (map benches hallDefs)
        \<and> map (\<lambda>a. (a_hall_id a, bench_index_in_hall a)) assignments = all_positions hallDefs"
    by (rule distributeBalanced_overflow)
next
  assume a: "length pool = 5 \<and> (\<forall>s \<in> set pool. subject_code s = code) \<and> benches h = 3"
  then have len: "length pool = 5" and b3: "benches h = 3" by (rule conjunct1, simp)
  from b3 have 1: "\<forall>h' \<in> set [h]. 0 \<le> benches h'" by simp
  from len b3 have 2: "sum_list (map benches [h]) < int (length pool)" by simp
  from distributeBalanced_overflow [OF 1 2, of g] obtain assignments where
    H: "distributeBalanced g pool [h] = Inr assignments
      \<and> mset (map a_student assignments) \<subseteq># mset pool
      \<and> int (size (mset pool - mset (map a_student assignments))) = int (length pool) - sum_list (map benches [h])
      \<and> map (\<lambda>a. (a_hall_id a, bench_index_in_hall a)) assignments = all_positions [h]"
    by (rule exE)
  note d = H [THEN conjunct1]
    and s = H [THEN conjunct2, THEN conjunct1]
    and n = H [THEN conjunct2, THEN conjunct2, THEN conjunct1]
    and p = H [THEN conjunct2, THEN conjunct2, THEN conjunct2]
  have "[1..3::int] = [1, 2, 3]" by (simp add: upto.simps)
  with b3 have ap: "all_positions [h] = [(hall_id h, 1), (hall_id h, 2), (hall_id h, 3)]"
    by (simp add: all_positions_def)
  have "map bench_index_in_hall assignments = map snd (map (\<lambda>a. (a_hall_id a, bench_index_in_hall a)) assignments)"
    by (simp add: comp_def)
  also have "\<dots> = [1, 2, 3]" unfolding p ap by simp
  finally have b: "map bench_index_in_hall assignments = [1, 2, 3]" .
  then have "length (map bench_index_in_hall assignments) = 3" by simp
  then have l: "length assignments = 3" by simp
  from n len b3 have "int (size (mset pool - mset (map a_student assignments))) = 2" by simp
  then have z: "size (mset pool - mset (map a_student assignments)) = 2" by simp
  show "\<exists>assignments. distributeBalanced g pool [h] = Inr assignments
        \<and> length assignments = 3
        \<and> map bench_index_in_hall assignments = [1, 2, 3]
        \<and> mset (map a_student assignments) \<subseteq># mset pool
        \<and> size (mset pool - mset (map a_student assignments)) = 2"
    apply (intro exI [of _ assignments] conjI)
        apply (rule d)
       apply (rule l)
      apply (rule b)
     apply (rule s)
    apply (rule z)
    done
qed

theorem distributeBalanced_drops_excess_witness:
  "\<exists>assignments.
     distributeBalanced (\<lambda>_. 0)
       [\<lparr>register_number = ''R1'', student_name = ''A'', subject_code = ''S''\<rparr>,
        \<lparr>register_number = ''R2'', student_name = ''B'', subject_code = ''S''\<rparr>,
        \<lparr>register_number = ''R3'', student_name = ''C'', subject_code = ''S''\<rparr>,
        \<lparr>register_number = ''R4'', student_name = ''D'', subject_code = ''S''\<rparr>,
        \<lparr>register_number = ''R5'', student_name = ''E'', subject_code = ''S''\<rparr>]
       [\<lparr>hall_id = ''H'', benches = 3, rows = 1, cols = 3\<rparr>] = Inr assignments
     \<and> length assignments = 3
     \<and> map bench_index_in_hall assignments = [1, 2, 3]
     \<and> mset (map a_student assignments) \<subseteq># mset
         [\<lparr>register_number = ''R1'', student_name = ''A'', subject_code = ''S''\<rparr>,
          \<lparr>register_number = ''R2'', student_name = ''B'', subject_code = ''S''\<rparr>,
          \<lparr>register_number = ''R3'', student_name = ''C'', subject_code = ''S''\<rparr>,
          \<lparr>register_number = ''R4'', student_name = ''D'', subject_code = ''S''\<rparr>,
          \<lparr>register_number = ''R5'', student_name = ''E'', subject_code = ''S''\<rparr>]
     \<and> size (mset
         [\<lparr>register_number = ''R1'', student_name = ''A'', subject_code = ''S''\<rparr>,
          \<lparr>register_number = ''R2'', student_name = ''B'', subject_code = ''S''\<rparr>,
          \<lparr>register_number = ''R3'', student_name = ''C'', subject_code = ''S''\<rparr>,
          \<lparr>register_number = ''R4'', student_name = ''D'', subject_code = ''S''\<rparr>,
          \<lparr>register_number = ''R5'', student_name = ''E'', subject_code = ''S''\<rparr>]
         - mset (map a_student assignments)) = 2"
proof -
  let ?pool = "[\<lparr>register_number = ''R1'', student_name = ''A'', subject_code = ''S''\<rparr>,
        \<lparr>register_number = ''R2'', student_name = ''B'', subject_code = ''S''\<rparr>,
        \<lparr>register_number = ''R3'', student_name = ''C'', subject_code = ''S''\<rparr>,
        \<lparr>register_number = ''R4'', student_name = ''D'', subject_code = ''S''\<rparr>,
        \<lparr>register_number = ''R5'', student_name = ''E'', subject_code = ''S''\<rparr>]"
  let ?h = "\<lparr>hall_id = ''H'', benches = 3, rows = 1, cols = 3\<rparr>"
  have hyp: "length ?pool = 5 \<and> (\<forall>s \<in> set ?pool. subject_code s = ''S'') \<and> benches ?h = 3"
    by simp
  from distributeBalanced_drops_excess [of "[?h]" ?pool "\<lambda>_. 0" ?pool "''S''" ?h]
  have "length ?pool = 5 \<and> (\<forall>s \<in> set ?pool. subject_code s = ''S'') \<and> benches ?h = 3 \<longrightarrow>
      (\<exists>assignments. distributeBalanced (\<lambda>_. 0) ?pool [?h] = Inr assignments
        \<and> length assignments = 3
        \<and> map bench_index_in_hall assignments = [1, 2, 3]
        \<and> mset (map a_student assignments) \<subseteq># mset ?pool
        \<and> size (mset ?pool - mset (map a_student assignments)) = 2)"
    by (rule conjunct2)
  from this hyp show ?thesis by (rule mp)
qed

text \<open>
  Claim C9. The primary pass of \<^verbatim>\<open>distributeBalanced\<close> fills the benches of every hall
  contiguously from bench 1: the positions it assigns are, hall by hall, the benches
  \<open>1, \<dots>, k\<close> for some \<open>k\<close> up to the bench count of the hall. When students are left in the
  queues after the primary pass, \<open>k\<close> is the bench count in every hall, the key of every
  position is in the set \<^verbatim>\<open>used\<close>, and the backfill pass returns the assignments unchanged.
\<close>

theorem primary_pass_contiguous:
  assumes "\<forall>h \<in> set hallDefs. 0 \<le> benches h"
  shows "\<exists>subjects assignments ks.
      primary_pass g studentsArr hallDefs = Inr (subjects, assignments)
    \<and> list_all2 (\<lambda>h k. 0 \<le> k \<and> k \<le> benches h) hallDefs ks
    \<and> map (\<lambda>a. (a_hall_id a, bench_index_in_hall a)) assignments
          = concat (map2 (\<lambda>h k. map (\<lambda>b. (hall_id h, b)) [1..k]) hallDefs ks)
    \<and> (drain subjects \<noteq> [] \<longrightarrow>
          ks = map benches hallDefs
        \<and> (\<forall>p \<in> set (all_positions hallDefs). position_key (fst p) (snd p)
              \<in> set (map (\<lambda>a. position_key (a_hall_id a) (bench_index_in_hall a)) assignments))
        \<and> backfill (drain subjects) 0 (all_positions hallDefs)
              (set (map (\<lambda>a. position_key (a_hall_id a) (bench_index_in_hall a)) assignments)) assignments
            = assignments
        \<and> distributeBalanced g studentsArr hallDefs = Inr assignments)"
proof -
  from distribute_spec [OF assms, of g studentsArr] obtain yss subjects' where
    p: "primary_pass g studentsArr hallDefs = Inr (subjects', placed_in hallDefs yss)"
    and d: "distributeBalanced g studentsArr hallDefs = Inr (placed_in hallDefs yss)"
    and l: "list_all2 (\<lambda>h ys. int (length ys) \<le> benches h) hallDefs yss"
    and c: "drain subjects' \<noteq> [] \<longrightarrow> list_all2 (\<lambda>h ys. int (length ys) = benches h) hallDefs yss"
    by blast
  let ?ks = "map (\<lambda>ys. int (length ys)) yss"
  let ?as = "placed_in hallDefs yss"
  let ?used = "set (map (\<lambda>a. position_key (a_hall_id a) (bench_index_in_hall a)) ?as)"
  from l have len: "length yss = length hallDefs" by (simp add: list_all2_lengthD)
  from l have 1: "list_all2 (\<lambda>h k. 0 \<le> k \<and> k \<le> benches h) hallDefs ?ks"
    by (simp add: list_all2_conv_all_nth)
  have 2: "map (\<lambda>a. (a_hall_id a, bench_index_in_hall a)) ?as
          = concat (map2 (\<lambda>h k. map (\<lambda>b. (hall_id h, b)) [1..k]) hallDefs ?ks)"
    using placed_in_positions [OF len] by (simp only: position_def [abs_def])
  have 3: "drain subjects' \<noteq> [] \<longrightarrow>
          ?ks = map benches hallDefs
        \<and> (\<forall>p \<in> set (all_positions hallDefs). position_key (fst p) (snd p) \<in> ?used)
        \<and> backfill (drain subjects') 0 (all_positions hallDefs) ?used ?as = ?as
        \<and> distributeBalanced g studentsArr hallDefs = Inr ?as"
  proof
    assume "drain subjects' \<noteq> []"
    with c have full: "list_all2 (\<lambda>h ys. int (length ys) = benches h) hallDefs yss" by simp
    then have a: "?ks = map benches hallDefs"
      by (induction hallDefs yss rule: list_all2_induct) simp_all
    have b: "\<forall>p \<in> set (all_positions hallDefs). position_key (fst p) (snd p) \<in> ?used"
    proof
      fix p assume "p \<in> set (all_positions hallDefs)"
      then have "p \<in> position ` set ?as" unfolding placed_in_full [OF full, symmetric] by simp
      then obtain a where a: "a \<in> set ?as" and pa: "p = position a" by blast
      from pa have "position_key (fst p) (snd p) = position_key (a_hall_id a) (bench_index_in_hall a)"
        by (simp add: position_def)
      with a show "position_key (fst p) (snd p) \<in> ?used" by simp
    qed
    from b have "backfill (drain subjects') 0 (all_positions hallDefs) ?used ?as = ?as"
      by (rule backfill_full)
    with a b d show "?ks = map benches hallDefs
        \<and> (\<forall>p \<in> set (all_positions hallDefs). position_key (fst p) (snd p) \<in> ?used)
        \<and> backfill (drain subjects') 0 (all_positions hallDefs) ?used ?as = ?as
        \<and> distributeBalanced g studentsArr hallDefs = Inr ?as" by blast
  qed
  show ?thesis
    apply (intro exI [of _ subjects'] exI [of _ ?as] exI [of _ ?ks] conjI)
       apply (rule p)
      apply (rule 1)
     apply (rule 2)
    apply (rule 3)
    done
qed

theorem primary_pass_contiguous_witness:
  "\<exists>subjects assignments.
     primary_pass (\<lambda>_. 0)
       [\<lparr>register_number = ''R1'', student_name = ''A'', subject_code = ''S1''\<rparr>,
        \<lparr>register_number = ''R2'', student_name = ''B'', subject_code = ''S1''\<rparr>,
        \<lparr>register_number = ''R3'', student_name = ''C'', subject_code = ''S2''\<rparr>]
       [\<lparr>hall_id = ''H1'', benches = 1, rows = 1, cols = 1\<rparr>,
        \<lparr>hall_id = ''H2'', benches = 1, rows = 1, cols = 1\<rparr>] = Inr (subjects, assignments)
     \<and> map (\<lambda>a. (a_hall_id a, bench_index_in_hall a)) assignments = [(''H1'', 1), (''H2'', 1)]
     \<and> drain subjects \<noteq> []
     \<and> distributeBalanced (\<lambda>_. 0)
       [\<lparr>register_number = ''R1'', student_name = ''A'', subject_code = ''S1''\<rparr>,
        \<lparr>register_number = ''R2'', student_name = ''B'', subject_code = ''S1''\<rparr>,
        \<lparr>register_number = ''R3'', student_name = ''C'', subject_code = ''S2''\<rparr>]
       [\<lparr>hall_id = ''H1'', benches = 1, rows = 1, cols = 1\<rparr>,
        \<lparr>hall_id = ''H2'', benches = 1, rows = 1, cols = 1\<rparr>] = Inr assignments"
proof -
  let ?A = "\<lparr>register_number = ''R1'', student_name = ''A'', subject_code = ''S1''\<rparr>"
  let ?B = "\<lparr>register_number = ''R2'', student_name = ''B'', subject_code = ''S1''\<rparr>"
  let ?C = "\<lparr>register_number = ''R3'', student_name = ''C'', subject_code = ''S2''\<rparr>"
  let ?H1 = "\<lparr>hall_id = ''H1'', benches = 1, rows = 1, cols = 1\<rparr>"
  let ?H2 = "\<lparr>hall_id = ''H2'', benches = 1, rows = 1, cols = 1\<rparr>"
  let ?key = "\<lambda>a. position_key (a_hall_id a) (bench_index_in_hall a)"
  have hyp: "\<forall>h \<in> set [?H1, ?H2]. 0 \<le> benches h" by simp
  from primary_pass_contiguous [OF hyp, of "\<lambda>_. 0" "[?A, ?B, ?C]"]
  obtain subjects assignments ks where
    H: "primary_pass (\<lambda>_. 0) [?A, ?B, ?C] [?H1, ?H2] = Inr (subjects, assignments)
     \<and> list_all2 (\<lambda>h k. 0 \<le> k \<and> k \<le> benches h) [?H1, ?H2] ks
     \<and> map (\<lambda>a. (a_hall_id a, bench_index_in_hall a)) assignments
          = concat (map2 (\<lambda>h k. map (\<lambda>b. (hall_id h, b)) [1..k]) [?H1, ?H2] ks)
     \<and> (drain subjects \<noteq> [] \<longrightarrow>
          ks = map benches [?H1, ?H2]
        \<and> (\<forall>p \<in> set (all_positions [?H1, ?H2]). position_key (fst p) (snd p) \<in> set (map ?key assignments))
        \<and> backfill (drain subjects) 0 (all_positions [?H1, ?H2]) (set (map ?key assignments)) assignments
            = assignments
        \<and> distributeBalanced (\<lambda>_. 0) [?A, ?B, ?C] [?H1, ?H2] = Inr assignments)"
    by (elim exE)
  note p = H [THEN conjunct1] and pos = H [THEN conjunct2, THEN conjunct2, THEN conjunct1]
    and imp = H [THEN conjunct2, THEN conjunct2, THEN conjunct2]
  have n1: "nat 1 = Suc 0" by simp
  have "primary_pass (\<lambda>_. 0) [?A, ?B, ?C] [?H1, ?H2]
      = Inr ([\<lparr>subject = ''S1'', q = [], count = 2\<rparr>, \<lparr>subject = ''S2'', q = [?C], count = 1\<rparr>],
             [\<lparr>a_hall_id = ''H1'', bench_index_in_hall = 1, a_student = ?B\<rparr>,
              \<lparr>a_hall_id = ''H2'', bench_index_in_hall = 1, a_student = ?A\<rparr>])"
    by (simp add: primary_pass_def group_by_subject_def subject_key_def shuffleArray_def
        random_index_def make_subjects_def js_sort_def fill.simps n1 Let_def)
  with p have s: "subjects = [\<lparr>subject = ''S1'', q = [], count = 2\<rparr>, \<lparr>subject = ''S2'', q = [?C], count = 1\<rparr>]"
    and a: "assignments = [\<lparr>a_hall_id = ''H1'', bench_index_in_hall = 1, a_student = ?B\<rparr>,
              \<lparr>a_hall_id = ''H2'', bench_index_in_hall = 1, a_student = ?A\<rparr>]"
    by simp_all
  from s have ne: "drain subjects \<noteq> []" by (simp add: drain_def)
  from a have ps: "map (\<lambda>a. (a_hall_id a, bench_index_in_hall a)) assignments = [(''H1'', 1), (''H2'', 1)]"
    by simp
  from imp ne have d: "distributeBalanced (\<lambda>_. 0) [?A, ?B, ?C] [?H1, ?H2] = Inr assignments"
    by simp
  show ?thesis
    apply (intro exI [of _ subjects] exI [of _ assignments] conjI)
       apply (rule p)
      apply (rule ps)
     apply (rule ne)
    apply (rule d)
    done
qed

text \<open>
  Claim C6. A sweep that starts from well-formed subject groups takes at most one student
  from every group (a queue is left as it is or loses its head), the students it seats have
  pairwise different subjects, and it leaves the groups well formed. The groups built by
  \<^verbatim>\<open>distributeBalanced\<close> are well formed and filling a hall keeps them so, hence this holds of
  every sweep. For the pool of two students of subject s1 and two of subject s2 and one hall
  of 4 benches, whatever the shuffles draw, the benches 1 to 4 get the subjects s1, s2, s1,
  s2: no two adjacent benches share a subject.
\<close>

theorem sweep_takes_one_per_subject:
  "(groups_wf subjects \<and> idx \<le> capacity \<and> length hallSeats = capacity
      \<and> sweep capacity subjects (hallSeats, idx, placed) = (subjects', hallSeats', idx', placed') \<longrightarrow>
      (\<exists>taken. hallSeats' = take idx hallSeats @ map Some taken @ drop idx' hallSeats
         \<and> idx' = idx + length taken \<and> idx' \<le> capacity
         \<and> distinct (map subject_key taken)
         \<and> distinct (map subject_code taken)
         \<and> list_all2 (\<lambda>sub sub'. subject sub' = subject sub \<and> (q sub' = q sub \<or> q sub' = tl (q sub)))
               subjects subjects'
         \<and> groups_wf subjects'))
   \<and> groups_wf (make_subjects (fst (shuffle_queues g (group_by_subject studentsArr))))
   \<and> (groups_wf subjects \<and> length hallSeats = capacity \<and> idx \<le> capacity \<longrightarrow>
        groups_wf (fst (fill capacity subjects hallSeats idx)))
   \<and> (subject_code a = ''s1'' \<and> subject_code b = ''s1'' \<and> subject_code c = ''s2'' \<and> subject_code d = ''s2''
        \<and> benches h = 4 \<longrightarrow>
        (\<exists>assignments. distributeBalanced g [a, b, c, d] [h] = Inr assignments
           \<and> map bench_index_in_hall assignments = [1, 2, 3, 4]
           \<and> map (\<lambda>x. subject_code (a_student x)) assignments = [''s1'', ''s2'', ''s1'', ''s2'']))"
proof (intro conjI impI)
  assume a: "groups_wf subjects \<and> idx \<le> capacity \<and> length hallSeats = capacity
      \<and> sweep capacity subjects (hallSeats, idx, placed) = (subjects', hallSeats', idx', placed')"
  note wf = a [THEN conjunct1] and le = a [THEN conjunct2, THEN conjunct1]
    and len = a [THEN conjunct2, THEN conjunct2, THEN conjunct1]
    and sw = a [THEN conjunct2, THEN conjunct2, THEN conjunct2]
  let ?t = "sweep_taken (capacity - idx) subjects"
  have "(subjects', hallSeats', idx', placed') =
     (sweep_left (capacity - idx) subjects,
      take idx hallSeats @ map Some ?t @ drop (idx + length ?t) hallSeats,
      idx + length ?t, placed \<or> ?t \<noteq> [])"
    unfolding sw [symmetric] using le len by (rule sweep_general)
  then have s': "subjects' = sweep_left (capacity - idx) subjects"
    and h': "hallSeats' = take idx hallSeats @ map Some ?t @ drop (idx + length ?t) hallSeats"
    and i': "idx' = idx + length ?t"
    by (simp_all only: prod.inject)
  have "length ?t \<le> capacity - idx" by (rule sweep_taken_length)
  with le i' have c: "idx' \<le> capacity" by simp
  have dk: "distinct (map subject_key ?t)" using wf by (rule sweep_taken_distinct)
  then have dc: "distinct (map subject_code ?t)" by (rule subject_code_distinct)
  have q: "list_all2 (\<lambda>sub sub'. subject sub' = subject sub \<and> (q sub' = q sub \<or> q sub' = tl (q sub)))
               subjects subjects'"
    unfolding s' by (rule sweep_left_queues)
  have w: "groups_wf subjects'" unfolding s' using wf by (rule sweep_left_wf)
  show "\<exists>taken. hallSeats' = take idx hallSeats @ map Some taken @ drop idx' hallSeats
         \<and> idx' = idx + length taken \<and> idx' \<le> capacity
         \<and> distinct (map subject_key taken)
         \<and> distinct (map subject_code taken)
         \<and> list_all2 (\<lambda>sub sub'. subject sub' = subject sub \<and> (q sub' = q sub \<or> q sub' = tl (q sub)))
               subjects subjects'
         \<and> groups_wf subjects'"
    apply (intro exI [of _ ?t] conjI)
          apply (simp only: h' i' [symmetric])
         apply (rule i')
        apply (rule c)
       apply (rule dk)
      apply (rule dc)
     apply (rule q)
    apply (rule w)
    done
next
  show "groups_wf (make_subjects (fst (shuffle_queues g (group_by_subject studentsArr))))"
    by (rule initial_subjects_wf)
next
  assume "groups_wf subjects \<and> length hallSeats = capacity \<and> idx \<le> capacity"
  then have "groups_wf subjects" and "length hallSeats = capacity" and "idx \<le> capacity"
    by simp_all
  then show "groups_wf (fst (fill capacity subjects hallSeats idx))" by (rule fill_wf)
next
  assume "subject_code a = ''s1'' \<and> subject_code b = ''s1'' \<and> subject_code c = ''s2'' \<and> subject_code d = ''s2''
        \<and> benches h = 4"
  then have "subject_code a = ''s1''" "subject_code b = ''s1''" "subject_code c = ''s2''"
    "subject_code d = ''s2''" "benches h = 4"
    by simp_all
  then show "\<exists>assignments. distributeBalanced g [a, b, c, d] [h] = Inr assignments
           \<and> map bench_index_in_hall assignments = [1, 2, 3, 4]
           \<and> map (\<lambda>x. subject_code (a_student x)) assignments = [''s1'', ''s2'', ''s1'', ''s2'']"
    by (rule example_distribute)
qed

theorem sweep_takes_one_per_subject_witness:
  "(\<exists>taken.
       [Some \<lparr>register_number = ''A'', student_name = ''A'', subject_code = ''s1''\<rparr>,
        Some \<lparr>register_number = ''C'', student_name = ''C'', subject_code = ''s2''\<rparr>]
         = take 0 [None, None] @ map Some taken @ drop 2 [None, None]
     \<and> 2 = 0 + length taken \<and> (2::nat) \<le> 2
     \<and> distinct (map subject_key taken)
     \<and> distinct (map subject_code taken)
     \<and> list_all2 (\<lambda>sub sub'. subject sub' = subject sub \<and> (q sub' = q sub \<or> q sub' = tl (q sub)))
          [\<lparr>subject = ''s1'', q = [\<lparr>register_number = ''A'', student_name = ''A'', subject_code = ''s1''\<rparr>], count = 1\<rparr>,
           \<lparr>subject = ''s2'', q = [\<lparr>register_number = ''C'', student_name = ''C'', subject_code = ''s2''\<rparr>], count = 1\<rparr>]
          [\<lparr>subject = ''s1'', q = [], count = 1\<rparr>, \<lparr>subject = ''s2'', q = [], count = 1\<rparr>]
     \<and> groups_wf [\<lparr>subject = ''s1'', q = [], count = 1\<rparr>, \<lparr>subject = ''s2'', q = [], count = 1\<rparr>])
   \<and> (\<exists>assignments.
         distributeBalanced (\<lambda>_. 0)
           [\<lparr>register_number = ''A'', student_name = ''A'', subject_code = ''s1''\<rparr>,
            \<lparr>register_number = ''B'', student_name = ''B'', subject_code = ''s1''\<rparr>,
            \<lparr>register_number = ''C'', student_name = ''C'', subject_code = ''s2''\<rparr>,
            \<lparr>register_number = ''D'', student_name = ''D'', subject_code = ''s2''\<rparr>]
           [\<lparr>hall_id = ''H'', benches = 4, rows = 1, cols = 4\<rparr>] = Inr assignments
       \<and> map bench_index_in_hall assignments = [1, 2, 3, 4]
       \<and> map (\<lambda>x. subject_code (a_student x)) assignments = [''s1'', ''s2'', ''s1'', ''s2''])"
proof -
  let ?A = "\<lparr>register_number = ''A'', student_name = ''A'', subject_code = ''s1''\<rparr>"
  let ?B = "\<lparr>register_number = ''B'', student_name = ''B'', subject_code = ''s1''\<rparr>"
  let ?C = "\<lparr>register_number = ''C'', student_name = ''C'', subject_code = ''s2''\<rparr>"
  let ?D = "\<lparr>register_number = ''D'', student_name = ''D'', subject_code = ''s2''\<rparr>"
  let ?H = "\<lparr>hall_id = ''H'', benches = 4, rows = 1, cols = 4\<rparr>"
  let ?G = "[\<lparr>subject = ''s1'', q = [?A], count = 1\<rparr>, \<lparr>subject = ''s2'', q = [?C], count = 1\<rparr>]"
  let ?G' = "[\<lparr>subject = ''s1'', q = [], count = 1\<rparr>, \<lparr>subject = ''s2'', q = [], count = 1\<rparr>]"
  note T = sweep_takes_one_per_subject [of ?G 0 2 "[None, None]" False ?G' "[Some ?A, Some ?C]" 2 True
      "\<lambda>_. 0" "[?A, ?B, ?C, ?D]" ?A ?B ?C ?D ?H]
  have h1: "groups_wf ?G \<and> (0::nat) \<le> 2 \<and> length [None :: student option, None] = 2
      \<and> sweep 2 ?G ([None, None], 0, False) = (?G', [Some ?A, Some ?C], 2, True)"
    by (simp add: groups_wf_def subject_key_def numeral_2_eq_2)
  have h2: "subject_code ?A = ''s1'' \<and> subject_code ?B = ''s1'' \<and> subject_code ?C = ''s2''
      \<and> subject_code ?D = ''s2'' \<and> benches ?H = 4"
    by simp
  from T [THEN conjunct1, THEN mp, OF h1] T [THEN conjunct2, THEN conjunct2, THEN conjunct2, THEN mp, OF h2]
  show ?thesis by (rule conjI)
qed

text \<open>
  Claim C3, as stated, fails: the handler takes every number other than 0 as a given
  dimension, a negative one too. For 10 benches and \<^verbatim>\<open>rows = -3\<close> it computes
  \<open>cols = \<lceil>10 / (-3)\<rceil> = -3\<close>, finds \<open>rows * cols = 9 < 10\<close>, computes the same columns again
  and keeps them.
\<close>

theorem resolve_hall_negative_rows:
  "resolve_hall \<lparr>raw_hall_id = ''H'', raw_benches = Some 10, raw_rows = Some (- 3), raw_cols = None\<rparr>
     = Some \<lparr>hall_id = ''H'', benches = 10, rows = - 3, cols = - 3\<rparr>
   \<and> (- 3 :: int) * (- 3) < 10"
proof -
  have "\<lceil>real_of_int 10 / real_of_int (- 3)\<rceil> = (- 3 :: int)"
    by (simp add: ceiling_eq_iff)
  then show ?thesis
    by (simp add: resolve_hall_def fill_missing_dimension_def or_null_def ceil_div_def)
qed


text \<open>
  Claim C3, amended. For a hall definition with positive \<^verbatim>\<open>benches\<close> and with \<^verbatim>\<open>rows\<close> and
  \<^verbatim>\<open>cols\<close> each absent or a number that is not negative (zero counts as absent, as in the
  source), the geometry resolution of the handler yields rows and columns, both positive,
  with \<open>rows * cols \<ge> benches\<close>, following the policy: neither given, \<open>cols = 10\<close> and
  \<open>rows = \<lceil>benches / 10\<rceil>\<close>; only rows given, \<open>cols = \<lceil>benches / rows\<rceil>\<close>; only columns
  given, \<open>rows = \<lceil>benches / cols\<rceil>\<close>; both given with \<open>rows * cols < benches\<close>, the columns
  are recomputed as \<open>\<lceil>benches / rows\<rceil>\<close>; both given otherwise, they are kept.
\<close>

theorem resolve_hall_capacity:
  assumes "raw_benches h = Some n" and "0 < n"
    and "\<forall>r. raw_rows h = Some r \<longrightarrow> 0 \<le> r"
    and "\<forall>c. raw_cols h = Some c \<longrightarrow> 0 \<le> c"
  shows "\<exists>res. resolve_hall h = Some res
    \<and> hall_id res = raw_hall_id h \<and> benches res = n
    \<and> n \<le> rows res * cols res \<and> 0 < rows res \<and> 0 < cols res
    \<and> (or_null (raw_rows h) = None \<and> or_null (raw_cols h) = None \<longrightarrow>
          cols res = 10 \<and> rows res = \<lceil>real_of_int n / 10\<rceil>)
    \<and> (\<forall>r. or_null (raw_rows h) = Some r \<and> or_null (raw_cols h) = None \<longrightarrow>
          rows res = r \<and> cols res = \<lceil>real_of_int n / real_of_int r\<rceil>)
    \<and> (\<forall>c. or_null (raw_rows h) = None \<and> or_null (raw_cols h) = Some c \<longrightarrow>
          cols res = c \<and> rows res = \<lceil>real_of_int n / real_of_int c\<rceil>)
    \<and> (\<forall>r c. or_null (raw_rows h) = Some r \<and> or_null (raw_cols h) = Some c \<and> r * c < n \<longrightarrow>
          rows res = r \<and> cols res = \<lceil>real_of_int n / real_of_int r\<rceil>)
    \<and> (\<forall>r c. or_null (raw_rows h) = Some r \<and> or_null (raw_cols h) = Some c \<and> n \<le> r * c \<longrightarrow>
          rows res = r \<and> cols res = c)"
proof -
  from assms(1,2) have n: "(case raw_benches h of None \<Rightarrow> 30 | Some b \<Rightarrow> if b = 0 then 30 else b) = n"
    by simp
  have rpos: "0 < r" if "or_null (raw_rows h) = Some r" for r
    using that assms(3) by (cases "raw_rows h") (auto simp: or_null_def split: if_splits)
  have cpos: "0 < c" if "or_null (raw_cols h) = Some c" for c
    using that assms(4) by (cases "raw_cols h") (auto simp: or_null_def split: if_splits)
  show ?thesis
  proof (cases "or_null (raw_rows h)")
    case None
    note rn = this
    show ?thesis
    proof (cases "or_null (raw_cols h)")
      case None
      from ceil_div_pos [OF assms(2), of 10] obtain r where
        "ceil_div n 10 = Some r" "r = \<lceil>real_of_int n / real_of_int 10\<rceil>" "n \<le> 10 * r" "0 < r"
        by auto
      with rn None n show ?thesis
        by (simp add: resolve_hall_def fill_missing_dimension_def mult.commute)
    next
      case (Some c)
      from ceil_div_pos [OF assms(2) cpos [OF Some]] obtain r where
        "ceil_div n c = Some r" "r = \<lceil>real_of_int n / real_of_int c\<rceil>" "n \<le> c * r" "0 < r"
        by auto
      with rn Some n cpos [OF Some] show ?thesis
        by (simp add: resolve_hall_def fill_missing_dimension_def mult.commute)
    qed
  next
    case (Some r)
    note rs = this
    from ceil_div_pos [OF assms(2) rpos [OF rs]] obtain c' where
      c': "ceil_div n r = Some c'" "c' = \<lceil>real_of_int n / real_of_int r\<rceil>" "n \<le> r * c'" "0 < c'"
      by auto
    show ?thesis
    proof (cases "or_null (raw_cols h)")
      case None
      with rs n c' rpos [OF rs] show ?thesis
        by (simp add: resolve_hall_def fill_missing_dimension_def)
    next
      case (Some c)
      show ?thesis
      proof (cases "r * c < n")
        case True
        with rs Some n c' rpos [OF rs] show ?thesis
          by (simp add: resolve_hall_def fill_missing_dimension_def)
      next
        case False
        with rs Some n rpos [OF rs] cpos [OF Some] show ?thesis
          by (simp add: resolve_hall_def fill_missing_dimension_def)
      qed
    qed
  qed
qed

theorem resolve_hall_capacity_witness:
  "\<exists>res. resolve_hall \<lparr>raw_hall_id = ''H'', raw_benches = Some 35, raw_rows = Some 4, raw_cols = Some 5\<rparr> = Some res
     \<and> rows res = 4 \<and> cols res = 9 \<and> benches res = 35 \<and> 35 \<le> rows res * cols res"
proof -
  let ?h = "\<lparr>raw_hall_id = ''H'', raw_benches = Some 35, raw_rows = Some 4, raw_cols = Some 5\<rparr>"
  have a1: "raw_benches ?h = Some 35" and a2: "(0::int) < 35"
    and a3: "\<forall>r. raw_rows ?h = Some r \<longrightarrow> 0 \<le> r" and a4: "\<forall>c. raw_cols ?h = Some c \<longrightarrow> 0 \<le> c"
    by simp_all
  from resolve_hall_capacity [OF a1 a2 a3 a4] obtain res where
    r: "resolve_hall ?h = Some res" and b: "benches res = 35" and c: "35 \<le> rows res * cols res"
    and p: "\<forall>r c. or_null (raw_rows ?h) = Some r \<and> or_null (raw_cols ?h) = Some c \<and> r * c < 35 \<longrightarrow>
          rows res = r \<and> cols res = \<lceil>real_of_int 35 / real_of_int r\<rceil>"
    by (elim exE conjE) (rule that)
  have "or_null (raw_rows ?h) = Some 4 \<and> or_null (raw_cols ?h) = Some 5 \<and> (4::int) * 5 < 35"
    by (simp add: or_null_def)
  with p [rule_format, of 4 5] have "rows res = 4" and "cols res = \<lceil>real_of_int 35 / real_of_int 4\<rceil>"
    by simp_all
  moreover have "\<lceil>real_of_int 35 / real_of_int 4\<rceil> = 9" by simp
  ultimately show ?thesis using r b c by simp
qed

text \<open>
  Claim C5. When no allocator is requested, or the allocator \<^verbatim>\<open>odd\<close>, the handler
  distributes over halls whose bench count and column count are halved and rounded up, and
  maps the bench index \<open>i\<close> of every assignment to the physical bench \<open>(i - 1) * 2 + 1\<close>, which
  lies within the benches of the hall. For a hall of 10 benches and 5 columns, the effective
  bench count is 5 (and the effective column count 3), and a pool of three students is
  seated on the benches 1, 2, 3 of the engine, that is, on the physical benches 1, 3, 5.
\<close>

theorem odd_allocator_layout:
  assumes "allocator = None \<or> allocator = Some ''odd''"
    and "\<forall>h \<in> set hallDefs. 0 < benches h"
  shows "\<exists>pool' g' a.
      shuffleArray g pool = (pool', g')
    \<and> distributeBalanced g' pool'
          (map (\<lambda>h. h\<lparr>benches := \<lceil>real_of_int (benches h) / 2\<rceil>, cols := \<lceil>real_of_int (cols h) / 2\<rceil>\<rparr>)
             hallDefs) = Inr a
    \<and> assign_pool g allocator pool hallDefs
         = Inr (map (\<lambda>x. \<lparr>p_hall_id = a_hall_id x, bench_number = (bench_index_in_hall x - 1) * 2 + 1,
                            p_student = a_student x\<rparr>) a)
    \<and> (\<forall>x \<in> set a. \<exists>h \<in> set hallDefs. a_hall_id x = hall_id h
          \<and> 1 \<le> bench_index_in_hall x \<and> bench_index_in_hall x \<le> \<lceil>real_of_int (benches h) / 2\<rceil>
          \<and> (bench_index_in_hall x - 1) * 2 + 1 \<le> benches h)
    \<and> (\<forall>h. hallDefs = [h] \<and> benches h = 10 \<and> cols h = 5 \<and> length pool = 3 \<longrightarrow>
          map benches (odd_defs hallDefs) = [5] \<and> map cols (odd_defs hallDefs) = [3]
        \<and> map bench_index_in_hall a = [1, 2, 3]
        \<and> (\<exists>ps. assign_pool g allocator pool hallDefs = Inr ps \<and> map bench_number ps = [1, 3, 5]))"
proof -
  obtain pool' g' where sh: "shuffleArray g pool = (pool', g')" by (cases "shuffleArray g pool")
  from sh have "mset pool' = mset pool" using shuffleArray_mset [of g pool] by simp
  then have plen: "length pool' = length pool" by (rule mset_eq_length)
  from assms(1) have odd: "odd_allocator allocator" by (auto simp: odd_allocator_def)
  have nn: "\<forall>x \<in> set (odd_defs hallDefs). 0 \<le> benches x"
  proof
    fix x assume "x \<in> set (odd_defs hallDefs)"
    then obtain h where "h \<in> set hallDefs" and "benches x = ceil_half (benches h)"
      by (auto simp: odd_defs_def)
    with assms(2) have "0 < benches h" and "benches x = (benches h + 1) div 2"
      by (simp_all add: ceil_half_eq)
    then show "0 \<le> benches x" by simp
  qed
  from distribute_summary [OF nn, of g' pool'] obtain yss where
    d: "distributeBalanced g' pool' (odd_defs hallDefs) = Inr (placed_in (odd_defs hallDefs) yss)"
    and l: "list_all2 (\<lambda>h ys. int (length ys) \<le> benches h) (odd_defs hallDefs) yss"
    by blast
  let ?a = "placed_in (odd_defs hallDefs) yss"
  let ?remap = "\<lambda>x. \<lparr>p_hall_id = a_hall_id x, bench_number = (bench_index_in_hall x - 1) * 2 + 1,
                            p_student = a_student x\<rparr>"
  have 1: "distributeBalanced g' pool'
          (map (\<lambda>h. h\<lparr>benches := \<lceil>real_of_int (benches h) / 2\<rceil>, cols := \<lceil>real_of_int (cols h) / 2\<rceil>\<rparr>)
             hallDefs) = Inr ?a"
    using d by (simp only: odd_defs_update)
  from sh odd d have 2: "assign_pool g allocator pool hallDefs = Inr (map ?remap ?a)"
    by (simp add: assign_pool_def)
  have 3: "\<forall>x \<in> set ?a. \<exists>h \<in> set hallDefs. a_hall_id x = hall_id h
          \<and> 1 \<le> bench_index_in_hall x \<and> bench_index_in_hall x \<le> \<lceil>real_of_int (benches h) / 2\<rceil>
          \<and> (bench_index_in_hall x - 1) * 2 + 1 \<le> benches h"
  proof
    fix x assume "x \<in> set ?a"
    then show "\<exists>h \<in> set hallDefs. a_hall_id x = hall_id h
          \<and> 1 \<le> bench_index_in_hall x \<and> bench_index_in_hall x \<le> \<lceil>real_of_int (benches h) / 2\<rceil>
          \<and> (bench_index_in_hall x - 1) * 2 + 1 \<le> benches h"
      using l by (rule odd_defs_range)
  qed
  have 4: "\<forall>h. hallDefs = [h] \<and> benches h = 10 \<and> cols h = 5 \<and> length pool = 3 \<longrightarrow>
          map benches (odd_defs hallDefs) = [5] \<and> map cols (odd_defs hallDefs) = [3]
        \<and> map bench_index_in_hall ?a = [1, 2, 3]
        \<and> (\<exists>ps. assign_pool g allocator pool hallDefs = Inr ps \<and> map bench_number ps = [1, 3, 5])"
  proof (intro allI impI)
    fix h assume a: "hallDefs = [h] \<and> benches h = 10 \<and> cols h = 5 \<and> length pool = 3"
    then have hd: "hallDefs = [h]" and b: "benches h = 10" and c: "cols h = 5" and p: "length pool = 3"
      by simp_all
    from b c have e1: "map benches (odd_defs hallDefs) = [5]" and e2: "map cols (odd_defs hallDefs) = [3]"
      unfolding hd by (simp_all add: odd_defs_def ceil_half_eq)
    from p plen have "length pool' = 3" by simp
    from odd_example [OF b c this d [unfolded hd]]
    have e3: "map bench_index_in_hall ?a = [1, 2, 3]" unfolding hd .
    have "map bench_number (map ?remap ?a) = map (\<lambda>i. (i - 1) * 2 + 1) (map bench_index_in_hall ?a)"
      by (simp add: comp_def)
    then have e4: "map bench_number (map ?remap ?a) = [1, 3, 5]" unfolding e3 by simp
    from 2 e4 have "\<exists>ps. assign_pool g allocator pool hallDefs = Inr ps \<and> map bench_number ps = [1, 3, 5]"
      by (intro exI [of _ "map ?remap ?a"] conjI)
    with e1 e2 e3 show "map benches (odd_defs hallDefs) = [5] \<and> map cols (odd_defs hallDefs) = [3]
        \<and> map bench_index_in_hall ?a = [1, 2, 3]
        \<and> (\<exists>ps. assign_pool g allocator pool hallDefs = Inr ps \<and> map bench_number ps = [1, 3, 5])"
      by (intro conjI)
  qed
  show ?thesis
    apply (intro exI [of _ pool'] exI [of _ g'] exI [of _ ?a] conjI)
        apply (rule sh)
       apply (rule 1)
      apply (rule 2)
     apply (rule 3)
    apply (rule 4)
    done
qed

theorem odd_allocator_layout_witness:
  "map benches (odd_defs [\<lparr>hall_id = ''H'', benches = 10, rows = 2, cols = 5\<rparr>]) = [5]
   \<and> map cols (odd_defs [\<lparr>hall_id = ''H'', benches = 10, rows = 2, cols = 5\<rparr>]) = [3]
   \<and> (\<exists>ps. assign_pool (\<lambda>_. 0) None
         [\<lparr>register_number = ''R1'', student_name = ''A'', subject_code = ''S''\<rparr>,
          \<lparr>register_number = ''R2'', student_name = ''B'', subject_code = ''S''\<rparr>,
          \<lparr>register_number = ''R3'', student_name = ''C'', subject_code = ''T''\<rparr>]
         [\<lparr>hall_id = ''H'', benches = 10, rows = 2, cols = 5\<rparr>] = Inr ps
       \<and> map bench_number ps = [1, 3, 5])"
proof -
  let ?pool = "[\<lparr>register_number = ''R1'', student_name = ''A'', subject_code = ''S''\<rparr>,
          \<lparr>register_number = ''R2'', student_name = ''B'', subject_code = ''S''\<rparr>,
          \<lparr>register_number = ''R3'', student_name = ''C'', subject_code = ''T''\<rparr>]"
  let ?h = "\<lparr>hall_id = ''H'', benches = 10, rows = 2, cols = 5\<rparr>"
  have a1: "None = None \<or> None = Some ''odd''" by simp
  have a2: "\<forall>h \<in> set [?h]. 0 < benches h" by simp
  from odd_allocator_layout [OF a1 a2, of "\<lambda>_. 0" ?pool] obtain pool' g' a where
    H0: "shuffleArray (\<lambda>_. 0) ?pool = (pool', g')
    \<and> distributeBalanced g' pool'
          (map (\<lambda>h. h\<lparr>benches := \<lceil>real_of_int (benches h) / 2\<rceil>, cols := \<lceil>real_of_int (cols h) / 2\<rceil>\<rparr>)
             [?h]) = Inr a
    \<and> assign_pool (\<lambda>_. 0) None ?pool [?h]
         = Inr (map (\<lambda>x. \<lparr>p_hall_id = a_hall_id x, bench_number = (bench_index_in_hall x - 1) * 2 + 1,
                            p_student = a_student x\<rparr>) a)
    \<and> (\<forall>x \<in> set a. \<exists>h \<in> set [?h]. a_hall_id x = hall_id h
          \<and> 1 \<le> bench_index_in_hall x \<and> bench_index_in_hall x \<le> \<lceil>real_of_int (benches h) / 2\<rceil>
          \<and> (bench_index_in_hall x - 1) * 2 + 1 \<le> benches h)
    \<and> (\<forall>h. [?h] = [h] \<and> benches h = 10 \<and> cols h = 5 \<and> length ?pool = 3 \<longrightarrow>
          map benches (odd_defs [?h]) = [5] \<and> map cols (odd_defs [?h]) = [3]
        \<and> map bench_index_in_hall a = [1, 2, 3]
        \<and> (\<exists>ps. assign_pool (\<lambda>_. 0) None ?pool [?h] = Inr ps \<and> map bench_number ps = [1, 3, 5]))"
    by (elim exE)
  note H0 [THEN conjunct2, THEN conjunct2, THEN conjunct2, THEN conjunct2]
  then have
    H: "\<forall>h. [?h] = [h] \<and> benches h = 10 \<and> cols h = 5 \<and> length ?pool = 3 \<longrightarrow>
          map benches (odd_defs [?h]) = [5] \<and> map cols (odd_defs [?h]) = [3]
        \<and> map bench_index_in_hall a = [1, 2, 3]
        \<and> (\<exists>ps. assign_pool (\<lambda>_. 0) None ?pool [?h] = Inr ps \<and> map bench_number ps = [1, 3, 5])" .
  have "[?h] = [?h] \<and> benches ?h = 10 \<and> cols ?h = 5 \<and> length ?pool = 3" by simp
  with H [rule_format, of ?h] show ?thesis by (simp only: simp_thms)
qed

text \<open>
  Claim C7, as stated, fails: the synthetic identifier of a record can collide with an
  identifier that is already present. A roster with a record that carries the identifier
  SYN0001 and a record without identifier comes out with SYN0001 twice, since the source
  does not look at the identifiers present when it synthesizes.
\<close>

theorem synthetic_identifiers_collision:
  "map register_number
     (synthesize 1 (drop_duplicates {}
        [\<lparr>register_number = ''SYN0001'', student_name = ''A'', subject_code = ''S''\<rparr>,
         \<lparr>register_number = [], student_name = ''B'', subject_code = ''S''\<rparr>]))
   = [''SYN0001'', ''SYN0001'']"
  by (simp add: synthetic_id_def padStart_def string_of_nat.simps digit_char_def numeral_3_eq_3)


text \<open>
  Claim C7, amended. After the duplicates are dropped, every record still missing an
  identifier receives one and no other record is changed: the \<open>n\<close>-th record without
  identifier, in the order of the roster, receives \<open>synthetic_id n\<close>, which is SYN followed by
  the decimal digits of \<open>n\<close> padded with zeros to at least 4 digits (SYN0001, SYN0002, \<dots>).
  Different counters give different identifiers. If no parsed record carries an identifier
  of this form already, the identifiers of the roster are pairwise different, so that no
  synthetic identifier collides with one already present.
\<close>

theorem synthetic_identifiers:
  assumes "unique = drop_duplicates {} parsed"
  shows "length (synthesize 1 unique) = length unique
    \<and> (\<forall>i < length unique.
          synthesize 1 unique ! i =
            (if register_number (unique ! i) = []
             then (unique ! i)\<lparr>register_number :=
                    synthetic_id (1 + length (filter (\<lambda>s. register_number s = []) (take i unique)))\<rparr>
             else unique ! i))
    \<and> synthetic_id 1 = ''SYN0001'' \<and> synthetic_id 2 = ''SYN0002''
    \<and> (\<forall>k. take 3 (synthetic_id k) = ''SYN'' \<and> digits_value (drop 3 (synthetic_id k)) = int k
            \<and> 7 \<le> length (synthetic_id k))
    \<and> (\<forall>j k. synthetic_id j = synthetic_id k \<longrightarrow> j = k)
    \<and> ((\<forall>s \<in> set parsed. \<forall>k. register_number s \<noteq> synthetic_id k) \<longrightarrow>
          distinct (map register_number (synthesize 1 unique)))"
proof (intro conjI allI impI)
  show "length (synthesize 1 unique) = length unique" by (rule synthesize_length)
next
  fix i assume "i < length unique"
  then show "synthesize 1 unique ! i =
            (if register_number (unique ! i) = []
             then (unique ! i)\<lparr>register_number :=
                    synthetic_id (1 + length (filter (\<lambda>s. register_number s = []) (take i unique)))\<rparr>
             else unique ! i)"
    by (rule synthesize_nth)
next
  show "synthetic_id 1 = ''SYN0001''" using synthetic_id_1_2 by (rule conjunct1)
  show "synthetic_id 2 = ''SYN0002''" using synthetic_id_1_2 by (rule conjunct2)
next
  fix k
  show "take 3 (synthetic_id k) = ''SYN''" using synthetic_id_shape [of k] by simp
  show "digits_value (drop 3 (synthetic_id k)) = int k" by (rule synthetic_id_value)
  show "7 \<le> length (synthetic_id k)" using synthetic_id_shape [of k] by simp
next
  fix j k assume "synthetic_id j = synthetic_id k"
  then show "j = k" by (rule synthetic_id_inj)
next
  assume a: "\<forall>s \<in> set parsed. \<forall>k. register_number s \<noteq> synthetic_id k"
  from a drop_duplicates_subset [of "{}" parsed]
  have "\<forall>s \<in> set unique. \<forall>k. register_number s \<noteq> synthetic_id k"
    unfolding assms by blast
  with drop_duplicates_distinct [of "{}" parsed]
  show "distinct (map register_number (synthesize 1 unique))"
    unfolding assms by (rule synthesize_distinct)
qed


theorem synthetic_identifiers_witness:
  "map register_number
     (synthesize 1 (drop_duplicates {}
        [\<lparr>register_number = ''R1'', student_name = ''A'', subject_code = ''S''\<rparr>,
         \<lparr>register_number = [], student_name = ''B'', subject_code = ''S''\<rparr>,
         \<lparr>register_number = ''R1'', student_name = ''C'', subject_code = ''S''\<rparr>,
         \<lparr>register_number = [], student_name = ''D'', subject_code = ''S''\<rparr>]))
   = [''R1'', ''SYN0001'', ''SYN0002'']
   \<and> distinct (map register_number
     (synthesize 1 (drop_duplicates {}
        [\<lparr>register_number = ''R1'', student_name = ''A'', subject_code = ''S''\<rparr>,
         \<lparr>register_number = [], student_name = ''B'', subject_code = ''S''\<rparr>,
         \<lparr>register_number = ''R1'', student_name = ''C'', subject_code = ''S''\<rparr>,
         \<lparr>register_number = [], student_name = ''D'', subject_code = ''S''\<rparr>])))"
proof -
  let ?P = "[\<lparr>register_number = ''R1'', student_name = ''A'', subject_code = ''S''\<rparr>,
         \<lparr>register_number = [], student_name = ''B'', subject_code = ''S''\<rparr>,
         \<lparr>register_number = ''R1'', student_name = ''C'', subject_code = ''S''\<rparr>,
         \<lparr>register_number = [], student_name = ''D'', subject_code = ''S''\<rparr>]"
  have hyp: "\<forall>s \<in> set ?P. \<forall>k. register_number s \<noteq> synthetic_id k"
    by (simp add: synthetic_id_def)
  note T = synthetic_identifiers [OF refl, of ?P]
  from T have "(\<forall>s \<in> set ?P. \<forall>k. register_number s \<noteq> synthetic_id k) \<longrightarrow>
          distinct (map register_number (synthesize 1 (drop_duplicates {} ?P)))"
    by (elim conjE)
  with hyp have d: "distinct (map register_number (synthesize 1 (drop_duplicates {} ?P)))" by (rule rev_mp)
  have e: "map register_number (synthesize 1 (drop_duplicates {} ?P)) = [''R1'', ''SYN0001'', ''SYN0002'']"
    by (simp add: synthetic_id_def padStart_def string_of_nat.simps digit_char_def numeral_3_eq_3)
  from e d show ?thesis by (rule conjI)
qed

text \<open>
  Claim C2, as stated, fails: the handler reconciles every uploaded file on its own and
  concatenates the results, so the same register number in two files stays twice in the
  roster.
\<close>

theorem upload_students_duplicates:
  "upload_students (\<lambda>s. (s, []))
     [[[(''student_name'', Str ''A''), (''register_number'', Str ''R1''), (''subject_code'', Str ''S'')]],
      [[(''student_name'', Str ''B''), (''register_number'', Str ''R1''), (''subject_code'', Str ''S'')]]]
   = Inr [\<lparr>register_number = ''R1'', student_name = ''A'', subject_code = ''S''\<rparr>,
          \<lparr>register_number = ''R1'', student_name = ''B'', subject_code = ''S''\<rparr>]"
  by code_simp


text \<open>
  Claim C2, amended. When at least one file is uploaded the handler builds a roster, and
  every record of it has a register number that is not empty. The roster is the
  concatenation of the rosters of the files. The register numbers that come from one file
  are pairwise different, provided no row of the file already carries an identifier of the
  synthetic form; so they are in the whole roster when one file is uploaded. The roster of
  a file consists, up to the final sort, of the first occurrences of the file's register
  numbers and of all records without one, with the missing identifiers synthesized.
\<close>

theorem upload_students_identifiers:
  assumes "files \<noteq> []"
  shows "\<exists>students. upload_students extract files = Inr students
   \<and> (\<forall>s \<in> set students. register_number s \<noteq> [])
   \<and> students = concat (map (readStudentsFromFile extract) files)
   \<and> (\<forall>raw \<in> set files.
        (\<forall>r \<in> set raw. \<forall>k. register_number (parse_student extract r) \<noteq> synthetic_id k) \<longrightarrow>
          distinct (map register_number (readStudentsFromFile extract raw)))
   \<and> (\<forall>raw. files = [raw]
          \<and> (\<forall>r \<in> set raw. \<forall>k. register_number (parse_student extract r) \<noteq> synthetic_id k) \<longrightarrow>
          distinct (map register_number students))
   \<and> (\<forall>raw \<in> set files. \<forall>parsed. parsed = map (parse_student extract) raw \<longrightarrow>
        mset (readStudentsFromFile extract raw) =
          mset (synthesize 1 (map (nth parsed)
            (filter (\<lambda>i. register_number (parsed ! i) = []
                         \<or> register_number (parsed ! i) \<notin> register_number ` set (take i parsed))
               [0..<length parsed]))))"
proof -
  let ?students = "concat (map (readStudentsFromFile extract) files)"
  from assms have 0: "upload_students extract files = Inr ?students"
    by (simp add: upload_students_def)
  have 1: "\<forall>s \<in> set ?students. register_number s \<noteq> []"
  proof
    fix s assume "s \<in> set ?students"
    then obtain raw where "s \<in> set (reconcile (map (parse_student extract) raw))"
      by (auto simp: readStudentsFromFile_def)
    then show "register_number s \<noteq> []" by (rule reconcile_not_empty)
  qed
  have 2: "\<forall>raw \<in> set files.
        (\<forall>r \<in> set raw. \<forall>k. register_number (parse_student extract r) \<noteq> synthetic_id k) \<longrightarrow>
          distinct (map register_number (readStudentsFromFile extract raw))"
  proof (intro ballI impI)
    fix raw
    assume "\<forall>r \<in> set raw. \<forall>k. register_number (parse_student extract r) \<noteq> synthetic_id k"
    then have "\<forall>s \<in> set (map (parse_student extract) raw). \<forall>k. register_number s \<noteq> synthetic_id k"
      by simp
    then show "distinct (map register_number (readStudentsFromFile extract raw))"
      unfolding readStudentsFromFile_def by (rule reconcile_distinct)
  qed
  have 3: "\<forall>raw. files = [raw]
          \<and> (\<forall>r \<in> set raw. \<forall>k. register_number (parse_student extract r) \<noteq> synthetic_id k) \<longrightarrow>
          distinct (map register_number ?students)"
  proof (intro allI impI)
    fix raw
    assume a: "files = [raw]
          \<and> (\<forall>r \<in> set raw. \<forall>k. register_number (parse_student extract r) \<noteq> synthetic_id k)"
    then have "\<forall>s \<in> set (map (parse_student extract) raw). \<forall>k. register_number s \<noteq> synthetic_id k"
      by simp
    then have "distinct (map register_number (reconcile (map (parse_student extract) raw)))"
      by (rule reconcile_distinct)
    with a show "distinct (map register_number ?students)"
      by (simp add: readStudentsFromFile_def)
  qed
  have 4: "\<forall>raw \<in> set files. \<forall>parsed. parsed = map (parse_student extract) raw \<longrightarrow>
        mset (readStudentsFromFile extract raw) =
          mset (synthesize 1 (map (nth parsed)
            (filter (\<lambda>i. register_number (parsed ! i) = []
                         \<or> register_number (parsed ! i) \<notin> register_number ` set (take i parsed))
               [0..<length parsed])))"
  proof (intro ballI allI impI)
    fix raw parsed
    assume p: "parsed = map (parse_student extract) raw"
    have "mset (readStudentsFromFile extract raw) = mset (synthesize 1 (drop_duplicates {} parsed))"
      unfolding readStudentsFromFile_def p by (rule reconcile_mset)
    then show "mset (readStudentsFromFile extract raw) =
          mset (synthesize 1 (map (nth parsed)
            (filter (\<lambda>i. register_number (parsed ! i) = []
                         \<or> register_number (parsed ! i) \<notin> register_number ` set (take i parsed))
               [0..<length parsed])))"
      by (simp only: drop_duplicates_first_occurrences [of "{}" parsed] Un_empty_left)
  qed
  show ?thesis
    apply (intro exI [of _ ?students] conjI)
         apply (rule 0)
        apply (rule 1)
       apply (rule refl)
      apply (rule 2)
     apply (rule 3)
    apply (rule 4)
    done
qed


theorem upload_students_identifiers_witness:
  "upload_students (\<lambda>s. (s, []))
     [[[(''student_name'', Str ''A''), (''register_number'', Str ''R2''), (''subject_code'', Str ''S'')],
       [(''student_name'', Str ''B''), (''register_number'', Str ''''), (''subject_code'', Str ''S'')],
       [(''student_name'', Str ''C''), (''register_number'', Str ''R2''), (''subject_code'', Str ''S'')]]]
   = Inr [\<lparr>register_number = ''R2'', student_name = ''A'', subject_code = ''S''\<rparr>,
          \<lparr>register_number = ''SYN0001'', student_name = ''B'', subject_code = ''S''\<rparr>]
   \<and> distinct (map register_number
          [\<lparr>register_number = ''R2'', student_name = ''A'', subject_code = ''S''\<rparr>,
           \<lparr>register_number = ''SYN0001'', student_name = ''B'', subject_code = ''S''\<rparr>])"
proof -
  let ?raw = "[[(''student_name'', Str ''A''), (''register_number'', Str ''R2''), (''subject_code'', Str ''S'')],
          [(''student_name'', Str ''B''), (''register_number'', Str ''''), (''subject_code'', Str ''S'')],
          [(''student_name'', Str ''C''), (''register_number'', Str ''R2''), (''subject_code'', Str ''S'')]]"
  let ?ext = "\<lambda>s :: string. (s, [] :: string)"
  let ?out = "[\<lparr>register_number = ''R2'', student_name = ''A'', subject_code = ''S''\<rparr>,
          \<lparr>register_number = ''SYN0001'', student_name = ''B'', subject_code = ''S''\<rparr>]"
  have regs: "map (\<lambda>r. register_number (parse_student ?ext r)) ?raw = [''R2'', [], ''R2'']"
    by code_simp
  have hyp: "[?raw] = [?raw] \<and> (\<forall>r \<in> set ?raw. \<forall>k. register_number (parse_student ?ext r) \<noteq> synthetic_id k)"
  proof -
    have "\<forall>x \<in> set (map (\<lambda>r. register_number (parse_student ?ext r)) ?raw). \<forall>k. x \<noteq> synthetic_id k"
      unfolding regs by (simp add: synthetic_id_def)
    then show ?thesis by simp
  qed
  have ne: "[?raw] \<noteq> []" by simp
  from upload_students_identifiers [OF ne, of ?ext] obtain students where
    u: "upload_students ?ext [?raw] = Inr students"
    and d: "\<forall>raw. [?raw] = [raw]
          \<and> (\<forall>r \<in> set raw. \<forall>k. register_number (parse_student ?ext r) \<noteq> synthetic_id k) \<longrightarrow>
          distinct (map register_number students)"
    by (elim exE conjE) (rule that)
  have e: "upload_students ?ext [?raw] = Inr ?out" by code_simp
  with u have "students = ?out" by simp
  with d [rule_format, OF hyp] have "distinct (map register_number ?out)" by simp
  with e show ?thesis by (rule conjI)
qed


text \<open>
  Claim C10. \<^verbatim>\<open>readHallListFromFile\<close> returns the parsed hall records, all of them, in
  ascending order of \<^verbatim>\<open>hall_id\<close> by code unit. When the rows have a hall column and the
  identifiers are pairwise different, a file with the same rows in another order gives the
  same list. The handler resolves the halls in the order of this list, so the halls that
  the distribution engine receives are in ascending order of \<^verbatim>\<open>hall_id\<close> too.
\<close>

theorem readHallListFromFile_sorted:
  "sorted (map raw_hall_id (readHallListFromFile raw defaultBenches))
   \<and> mset (readHallListFromFile raw defaultBenches)
       = mset (map (\<lambda>(i, r). parse_hall defaultBenches i r) (enumerate 0 raw))
   \<and> (\<forall>raw'. (\<forall>r \<in> set raw. hallKey (map fst r) \<noteq> None) \<and> mset raw' = mset raw
          \<and> distinct (map raw_hall_id (readHallListFromFile raw defaultBenches)) \<longrightarrow>
        readHallListFromFile raw' defaultBenches = readHallListFromFile raw defaultBenches)
   \<and> (\<forall>hallDefs. resolve_halls (readHallListFromFile raw defaultBenches) = Some hallDefs \<longrightarrow>
        sorted (map hall_id hallDefs))"
proof (intro conjI allI impI)
  show s: "sorted (map raw_hall_id (readHallListFromFile raw defaultBenches))"
    unfolding readHallListFromFile_def by (rule js_sort_sorted)
  show m: "mset (readHallListFromFile raw defaultBenches)
       = mset (map (\<lambda>(i, r). parse_hall defaultBenches i r) (enumerate 0 raw))"
    unfolding readHallListFromFile_def by (rule js_sort_mset)
  {
    fix hallDefs assume "resolve_halls (readHallListFromFile raw defaultBenches) = Some hallDefs"
    then have "map hall_id hallDefs = map raw_hall_id (readHallListFromFile raw defaultBenches)"
      by (rule resolve_halls_ids)
    with s show "sorted (map hall_id hallDefs)" by simp
  }
  fix raw'
  assume a: "(\<forall>r \<in> set raw. hallKey (map fst r) \<noteq> None) \<and> mset raw' = mset raw
          \<and> distinct (map raw_hall_id (readHallListFromFile raw defaultBenches))"
  then have k: "\<forall>r \<in> set raw. hallKey (map fst r) \<noteq> None" and p: "mset raw' = mset raw"
    and d: "distinct (map raw_hall_id (readHallListFromFile raw defaultBenches))"
    by simp_all
  from p have "set raw' = set raw" by (rule mset_eq_setD)
  with k have k': "\<forall>r \<in> set raw'. hallKey (map fst r) \<noteq> None" by simp
  let ?P = "map (parse_hall defaultBenches 0) raw" and ?P' = "map (parse_hall defaultBenches 0) raw'"
  have e: "map (\<lambda>(i, r). parse_hall defaultBenches i r) (enumerate 0 raw) = ?P"
    using k by (rule enumerate_parse_hall)
  have e': "map (\<lambda>(i, r). parse_hall defaultBenches i r) (enumerate 0 raw') = ?P'"
    using k' by (rule enumerate_parse_hall)
  from p have pm: "mset ?P = mset ?P'" by (simp only: mset_map)
  from m have "mset (map raw_hall_id (readHallListFromFile raw defaultBenches)) = mset (map raw_hall_id ?P)"
    unfolding e by (simp only: mset_map)
  with d have dP: "distinct (map raw_hall_id ?P)" using mset_eq_imp_distinct_iff by blast
  have "js_sort (\<lambda>a b. if raw_hall_id a < raw_hall_id b then - 1 else 1) ?P
      = js_sort (\<lambda>a b. if raw_hall_id a < raw_hall_id b then - 1 else 1) ?P'"
    using pm dP by (rule js_sort_order_independent)
  then show "readHallListFromFile raw' defaultBenches = readHallListFromFile raw defaultBenches"
    unfolding readHallListFromFile_def e e' by (rule sym)
qed

theorem readHallListFromFile_sorted_witness:
  "map raw_hall_id
     (readHallListFromFile
        [[(''Hall'', Str ''B2''), (''Benches'', Num 20)],
         [(''Hall'', Str ''A1''), (''Benches'', Num 30)],
         [(''Hall'', Str ''B10''), (''Benches'', Num 25)]] 30) = [''A1'', ''B10'', ''B2'']
   \<and> readHallListFromFile
        [[(''Hall'', Str ''A1''), (''Benches'', Num 30)],
         [(''Hall'', Str ''B10''), (''Benches'', Num 25)],
         [(''Hall'', Str ''B2''), (''Benches'', Num 20)]] 30
     = readHallListFromFile
        [[(''Hall'', Str ''B2''), (''Benches'', Num 20)],
         [(''Hall'', Str ''A1''), (''Benches'', Num 30)],
         [(''Hall'', Str ''B10''), (''Benches'', Num 25)]] 30
   \<and> sorted (map raw_hall_id
     (readHallListFromFile
        [[(''Hall'', Str ''B2''), (''Benches'', Num 20)],
         [(''Hall'', Str ''A1''), (''Benches'', Num 30)],
         [(''Hall'', Str ''B10''), (''Benches'', Num 25)]] 30))"
proof -
  let ?raw = "[[(''Hall'', Str ''B2''), (''Benches'', Num 20)],
         [(''Hall'', Str ''A1''), (''Benches'', Num 30)],
         [(''Hall'', Str ''B10''), (''Benches'', Num 25)]]"
  let ?raw' = "[[(''Hall'', Str ''A1''), (''Benches'', Num 30)],
         [(''Hall'', Str ''B10''), (''Benches'', Num 25)],
         [(''Hall'', Str ''B2''), (''Benches'', Num 20)]]"
  note T = readHallListFromFile_sorted [of ?raw 30]
  have ids: "map raw_hall_id (readHallListFromFile ?raw 30) = [''A1'', ''B10'', ''B2'']"
    by code_simp
  have keys: "\<forall>r \<in> set ?raw. hallKey (map fst r) \<noteq> None"
    by code_simp
  have perm: "mset ?raw' = mset ?raw" by simp
  have dist: "distinct (map raw_hall_id (readHallListFromFile ?raw 30))"
    unfolding ids by simp
  from T have "\<forall>raw'. (\<forall>r \<in> set ?raw. hallKey (map fst r) \<noteq> None) \<and> mset raw' = mset ?raw
          \<and> distinct (map raw_hall_id (readHallListFromFile ?raw 30)) \<longrightarrow>
        readHallListFromFile raw' 30 = readHallListFromFile ?raw 30"
    by (elim conjE)
  from this [rule_format, of ?raw'] keys perm dist
  have e: "readHallListFromFile ?raw' 30 = readHallListFromFile ?raw 30" by blast
  from T have s: "sorted (map raw_hall_id (readHallListFromFile ?raw 30))" by (elim conjE)
  from ids e s show ?thesis by (intro conjI)
qed

text \<open>
  Claim C8, as stated, fails: the value that the fallback scan takes need not be
  alphanumeric. The test of the source, \<^verbatim>\<open>/[A-Za-z0-9]/.test(v)\<close>, asks for one letter or
  digit somewhere in the value. In the row below no subject column is identified, the scan
  takes the value A-1 of the first column, and the second column holds CS101, which is the
  first value that is alphanumeric.
\<close>

theorem subject_fallback_scan_not_alphanumeric:
  "courseCol (map fst [(''Paper'', Str ''A-1''), (''Slot'', Str ''CS101'')]) = None
   \<and> subjCol (map fst [(''Paper'', Str ''A-1''), (''Slot'', Str ''CS101'')]) = None
   \<and> subject_code (parseStudentRowRobust (\<lambda>s. (s, []))
        [(''Paper'', Str ''A-1''), (''Slot'', Str ''CS101'')]) = ''A-1''
   \<and> \<not> list_all is_alnum ''A-1''
   \<and> list_all is_alnum ''CS101'' \<and> length ''CS101'' \<le> 8
   \<and> \<not> str_includes (toLowerCase ''Slot'') ''name''"
  by code_simp


text \<open>
  Claim C8, amended. When no course column and no subject column with a cell that is not
  blank is identified, the parser scans the columns in order and takes as subject code, in
  upper case, the trimmed text of the first cell that is not empty, at most 8 characters long
  and contains at least one ASCII letter or digit, under a header that does not contain
  \<open>name\<close> in any letter case; no column before it passes this test. When no column passes,
  the subject code is empty.
\<close>

theorem subject_fallback_scan:
  assumes "courseCol (map fst r) = None \<or> (\<exists>k. courseCol (map fst r) = Some k \<and> cell_text r k = [])"
    and "subjCol (map fst r) = None \<or> (\<exists>k. subjCol (map fst r) = Some k \<and> cell_text r k = [])"
  shows "(\<exists>pre k post. map fst r = pre @ k # post \<and> (\<forall>k' \<in> set pre. \<not> scan_accepts r k')
            \<and> scan_accepts r k
            \<and> subject_code (parseStudentRowRobust extract r) = toUpperCase (cell_text r k))
       \<or> ((\<forall>k \<in> set (map fst r). \<not> scan_accepts r k)
            \<and> subject_code (parseStudentRowRobust extract r) = [])"
proof -
  note sc = fallback_subject_code [OF assms, of "extract"]
  from subject_scan_first [of "map fst r" r] show ?thesis
  proof
    assume "\<exists>pre k post. map fst r = pre @ k # post \<and> (\<forall>k' \<in> set pre. \<not> scan_accepts r k')
        \<and> scan_accepts r k \<and> subject_scan r (map fst r) = cell_text r k"
    then obtain pre k post where 1: "map fst r = pre @ k # post"
      and 2: "\<forall>k' \<in> set pre. \<not> scan_accepts r k'" and 3: "scan_accepts r k"
      and 4: "subject_scan r (map fst r) = cell_text r k" by blast
    from sc 4 have "subject_code (parseStudentRowRobust extract r) = toUpperCase (cell_text r k)"
      by (simp only: cell_text_trimmed)
    with 1 2 3 have "map fst r = pre @ k # post \<and> (\<forall>k' \<in> set pre. \<not> scan_accepts r k')
            \<and> scan_accepts r k
            \<and> subject_code (parseStudentRowRobust extract r) = toUpperCase (cell_text r k)"
      by (intro conjI)
    then show ?thesis by blast
  next
    assume a: "(\<forall>k \<in> set (map fst r). \<not> scan_accepts r k) \<and> subject_scan r (map fst r) = []"
    then have "subject_scan r (map fst r) = []" by (rule conjunct2)
    with sc have "subject_code (parseStudentRowRobust extract r) = []"
      by (simp add: trim_def toUpperCase_def)
    with a show ?thesis by simp
  qed
qed


theorem subject_fallback_scan_witness:
  "(courseCol (map fst [(''Name'', Str ''Asha''), (''Paper'', Str '' cs-101 ''), (''Slot'', Str ''X'')]) = None
     \<or> (\<exists>k. courseCol (map fst [(''Name'', Str ''Asha''), (''Paper'', Str '' cs-101 ''), (''Slot'', Str ''X'')]) = Some k
          \<and> cell_text [(''Name'', Str ''Asha''), (''Paper'', Str '' cs-101 ''), (''Slot'', Str ''X'')] k = []))
   \<and> (subjCol (map fst [(''Name'', Str ''Asha''), (''Paper'', Str '' cs-101 ''), (''Slot'', Str ''X'')]) = None
     \<or> (\<exists>k. subjCol (map fst [(''Name'', Str ''Asha''), (''Paper'', Str '' cs-101 ''), (''Slot'', Str ''X'')]) = Some k
          \<and> cell_text [(''Name'', Str ''Asha''), (''Paper'', Str '' cs-101 ''), (''Slot'', Str ''X'')] k = []))
   \<and> ((\<exists>pre k post. map fst [(''Name'', Str ''Asha''), (''Paper'', Str '' cs-101 ''), (''Slot'', Str ''X'')] = pre @ k # post
          \<and> (\<forall>k' \<in> set pre. \<not> scan_accepts [(''Name'', Str ''Asha''), (''Paper'', Str '' cs-101 ''), (''Slot'', Str ''X'')] k')
          \<and> scan_accepts [(''Name'', Str ''Asha''), (''Paper'', Str '' cs-101 ''), (''Slot'', Str ''X'')] k
          \<and> subject_code (parseStudentRowRobust (\<lambda>s. (s, []))
                [(''Name'', Str ''Asha''), (''Paper'', Str '' cs-101 ''), (''Slot'', Str ''X'')])
              = toUpperCase (cell_text [(''Name'', Str ''Asha''), (''Paper'', Str '' cs-101 ''), (''Slot'', Str ''X'')] k))
       \<or> ((\<forall>k \<in> set (map fst [(''Name'', Str ''Asha''), (''Paper'', Str '' cs-101 ''), (''Slot'', Str ''X'')]).
              \<not> scan_accepts [(''Name'', Str ''Asha''), (''Paper'', Str '' cs-101 ''), (''Slot'', Str ''X'')] k)
          \<and> subject_code (parseStudentRowRobust (\<lambda>s. (s, []))
                [(''Name'', Str ''Asha''), (''Paper'', Str '' cs-101 ''), (''Slot'', Str ''X'')]) = []))
   \<and> subject_code (parseStudentRowRobust (\<lambda>s. (s, []))
        [(''Name'', Str ''Asha''), (''Paper'', Str '' cs-101 ''), (''Slot'', Str ''X'')]) = ''CS-101''"
proof -
  let ?r = "[(''Name'', Str ''Asha''), (''Paper'', Str '' cs-101 ''), (''Slot'', Str ''X'')]"
  have c: "courseCol (map fst ?r) = None" by code_simp
  have s: "subjCol (map fst ?r) = None" by code_simp
  from c have h1: "courseCol (map fst ?r) = None \<or> (\<exists>k. courseCol (map fst ?r) = Some k \<and> cell_text ?r k = [])"
    by (rule disjI1)
  from s have h2: "subjCol (map fst ?r) = None \<or> (\<exists>k. subjCol (map fst ?r) = Some k \<and> cell_text ?r k = [])"
    by (rule disjI1)
  note T = subject_fallback_scan [OF h1 h2, of "\<lambda>s. (s, [])"]
  have e: "subject_code (parseStudentRowRobust (\<lambda>s. (s, [])) ?r) = ''CS-101''" by code_simp
  from h1 h2 T e show ?thesis by (intro conjI)
qed

end
